theory Spec2Isabelle
  imports Main "HOL-Library.Word"
begin

unbundle bit_operations_syntax

section \<open>Status bits and limits (enum Status, enum Limits)\<close>

text \<open>
  The interpreter of \<^verbatim>\<open>bnflite.h\<close> returns an \<^verbatim>\<open>int\<close> that is used as a
  bit set; it is a 32-bit word here.  Input characters are bytes.
\<close>

type_synonym status = "32 word"
type_synonym byte = "8 word"

definition maxCharNum :: nat where "maxCharNum = 256"
definition maxLexemLength :: int where "maxLexemLength = 1024"

definition eNone :: status where "eNone = 0"
definition eErr :: status where "eErr = 0"
definition eOk :: status where "eOk = 1"
definition eRet :: status where "eRet = 0x8"
definition e1st :: status where "e1st = 0x10"
definition eSkip :: status where "eSkip = 0x20"
definition eCatch :: status where "eCatch = 0x40"
definition eTry :: status where "eTry = 0x80"
definition eRest :: status where "eRest = 0x0100"
definition eNull :: status where "eNull = 0x0200"
definition eOver :: status where "eOver = 0x0400"
definition eEof :: status where "eEof = 0x0800"
definition eBadRule :: status where "eBadRule = 0x1000"
definition eBadLexem :: status where "eBadLexem = 0x2000"

text \<open>\<^verbatim>\<open>eError = ((~(unsigned int)0) >> 1) + 1\<close>, the top bit of a 32-bit unsigned.\<close>

definition eError :: status where "eError = 0x80000000"

section \<open>The parse context (class _Base, class _Parser<U>)\<close>

text \<open>
  \<^verbatim>\<open>struct Interface<Data>\<close>: user data, start of the matched text, its length and
  the name of the production.  A \<^verbatim>\<open>const char*\<close> into the analysed text is the
  offset from the start of that text.
\<close>

record 'd Interface =
  data_I :: 'd
  text_I :: nat
  length_I :: nat
  name_I :: string

text \<open>
  The context object.  \<open>input\<close> is the analysed, NUL-terminated text: the sentinel
  sits at offset \<open>length (input p)\<close>.  \<open>zero_parse\<close> and \<open>Catch\<close> are the slots of the
  virtual methods of these names, which a host may override: the skipper gets
  the text and a position and returns a position; \<^verbatim>\<open>Catch()\<close> takes no argument,
  it may look at the text and at the public cursor stack, and returns a status.
  \<open>derived\<close> tells whether the object is a \<^verbatim>\<open>_Parser<U>\<close> (with \<open>cntxU\<close> and \<open>off\<close>) or a
  plain \<^verbatim>\<open>_Base\<close>, whose hooks do nothing and which never looks at those two
  fields.  \<open>cntxU\<close> is a pointer to a vector: \<open>None\<close> is the null pointer.
\<close>

record 'd parser =
  input :: "byte list"
  zero_parse :: "byte list \<Rightarrow> nat \<Rightarrow> nat"
  Catch :: "byte list \<Rightarrow> nat list \<Rightarrow> status"
  cntxV :: "nat list"
  level :: int
  derived :: bool
  cntxU :: "'d Interface list option"
  off :: nat

type_synonym 'd callback = "'d Interface list \<Rightarrow> 'd Interface"
type_synonym 'd up = "'d Interface list option \<times> nat"
type_synonym 'd parse_fn = "'d parser \<Rightarrow> (status \<times> 'd parser) option"

text \<open>
  Reading the text at an offset.  The byte at offset \<open>length txt\<close> is the sentinel;
  memory behind the sentinel is not part of the text and reads as zero here.
\<close>

definition byte_at :: "byte list \<Rightarrow> nat \<Rightarrow> byte" where
  "byte_at txt i = (if i < length txt then txt ! i else 0)"

text \<open>Unsigned subtraction of \<^verbatim>\<open>unsigned int\<close> and of \<^verbatim>\<open>size_t\<close> values.\<close>

definition usub32 :: "nat \<Rightarrow> nat \<Rightarrow> nat" where
  "usub32 a b = nat ((int a - int b) mod 2 ^ 32)"

definition usub64 :: "nat \<Rightarrow> nat \<Rightarrow> nat" where
  "usub64 a b = nat ((int a - int b) mod 2 ^ 64)"

text \<open>
  The conversion of a pointer difference (64 bits) to \<^verbatim>\<open>int\<close> (32 bits, two's
  complement): the value is reduced modulo \<open>2 ^ 32\<close> into the range of \<^verbatim>\<open>int\<close>.
\<close>

definition narrow :: "int \<Rightarrow> int" where
  "narrow x = (x + 2 ^ 31) mod 2 ^ 32 - 2 ^ 31"

text \<open>
  \<^verbatim>\<open>vector::erase(begin() + lo, begin() + hi)\<close>; an invalid range is undefined in
  C++ and yields no result here.  \<^verbatim>\<open>vector::resize(n)\<close> on the cursor stack pads
  with null pointers, written as offset 0.
\<close>

definition erase_range :: "nat \<Rightarrow> nat \<Rightarrow> 'a list \<Rightarrow> 'a list option" where
  "erase_range lo hi xs =
     (if lo \<le> hi \<and> hi \<le> length xs then Some (take lo xs @ drop hi xs) else None)"

definition resize :: "nat \<Rightarrow> nat list \<Rightarrow> nat list" where
  "resize n xs = take n xs @ replicate (n - length xs) 0"

text \<open>
  \<^verbatim>\<open>_Base::zero_parse\<close>, the default procedure that skips blanks, tabs and line ends
  and stops at the sentinel.
\<close>

function Base_zero_parse :: "byte list \<Rightarrow> nat \<Rightarrow> nat" where
  "Base_zero_parse txt ptr =
     (if byte_at txt ptr \<noteq> 0 then
        (if byte_at txt ptr \<noteq> 0x20 \<and> byte_at txt ptr \<noteq> 0x09
            \<and> byte_at txt ptr \<noteq> 0x0A \<and> byte_at txt ptr \<noteq> 0x0D
         then ptr
         else Base_zero_parse txt (ptr + 1))
      else ptr)"
  by pat_completeness auto
termination
  by (relation "measure (\<lambda>(txt, ptr). length txt - ptr)")
     (auto simp add: byte_at_def split: if_splits)

declare Base_zero_parse.simps [simp del]

text \<open>\<^verbatim>\<open>_Base::Catch\<close>: the default returns 0.\<close>

definition Base_Catch :: "byte list \<Rightarrow> nat list \<Rightarrow> status" where
  "Base_Catch t v = 0"

text \<open>
  \<^verbatim>\<open>_erase(low, up = 0)\<close>.  Both classes erase the cursor range; \<^verbatim>\<open>_Parser<U>\<close> also
  erases the range \<^verbatim>\<open>(low - off) / 2 .. (up - off) / 2\<close> of the semantic vector when
  there is one and the level is not 0.
\<close>

definition erase :: "nat \<Rightarrow> nat \<Rightarrow> 'd parser \<Rightarrow> 'd parser option" where
  "erase low up p =
     (case erase_range low (if up \<noteq> 0 then up else length (cntxV p)) (cntxV p) of
        None \<Rightarrow> None
      | Some v \<Rightarrow>
          (if derived p \<and> cntxU p \<noteq> None \<and> level p \<noteq> 0 then
             (case erase_range (usub32 low (off p) div 2)
                     (if up \<noteq> 0 then usub32 up (off p) div 2 else length (the (cntxU p)))
                     (the (cntxU p)) of
                None \<Rightarrow> None
              | Some u \<Rightarrow> Some (p\<lparr>cntxV := v, cntxU := Some u\<rparr>))
           else Some (p\<lparr>cntxV := v\<rparr>)))"

text \<open>\<^verbatim>\<open>Interface(text, length, name)\<close> and \<^verbatim>\<open>Interface(ifc, text, length, name)\<close>.\<close>

definition Interface_stub :: "nat \<Rightarrow> nat \<Rightarrow> string \<Rightarrow> ('d::zero) Interface" where
  "Interface_stub txt len nm = \<lparr>data_I = 0, text_I = txt, length_I = len, name_I = nm\<rparr>"

definition Interface_copy :: "'d Interface \<Rightarrow> nat \<Rightarrow> nat \<Rightarrow> string \<Rightarrow> 'd Interface" where
  "Interface_copy ifc txt len nm =
     \<lparr>data_I = data_I ifc, text_I = txt, length_I = len, name_I = nm\<rparr>"

text \<open>\<^verbatim>\<open>_stub_call(begin, end, name)\<close>.\<close>

definition stub_call :: "nat \<Rightarrow> nat \<Rightarrow> string \<Rightarrow> ('d::zero) parser \<Rightarrow> 'd parser" where
  "stub_call begin end nm p =
     (if derived p then
        (case cntxU p of
           Some u \<Rightarrow> p\<lparr>cntxU := Some (u @ [Interface_stub begin (usub64 end begin) nm])\<rparr>
         | None \<Rightarrow> p)
      else p)"

text \<open>
  \<^verbatim>\<open>_pre_call(callback)\<close> saves the current frame in the pair \<open>up\<close> and opens a new
  one when the production has a callback; \<^verbatim>\<open>_post_call(up)\<close> restores the saved
  frame.
\<close>

definition pre_call :: "'d callback option \<Rightarrow> 'd parser \<Rightarrow> 'd up \<times> 'd parser" where
  "pre_call callback p =
     (if derived p then
        ((cntxU p, off p),
         p\<lparr>cntxU := (if callback \<noteq> None then Some [] else None),
           off := (if callback \<noteq> None then length (cntxV p) else 0)\<rparr>)
      else ((None, 0), p))"

definition post_call :: "'d up \<Rightarrow> 'd parser \<Rightarrow> 'd parser" where
  "post_call up p = (if derived p then p\<lparr>cntxU := fst up, off := snd up\<rparr> else p)"

text \<open>
  \<^verbatim>\<open>_do_call(up, callback, begin, end, name)\<close> pushes the production's value on
  the saved (parent) vector, through the pointer \<open>up.first\<close>.  Nothing else can
  reach that vector until \<^verbatim>\<open>_post_call\<close> makes it current again, so the updated
  vector is returned in the pair.  A callback called while \<open>cntxU\<close> is null would
  dereference a null pointer: no result.
\<close>

definition do_call ::
  "'d up \<Rightarrow> 'd callback option \<Rightarrow> nat \<Rightarrow> nat \<Rightarrow> string \<Rightarrow> ('d::zero) parser \<Rightarrow> 'd up option"
where
  "do_call up callback begin end nm p =
     (if derived p then
        (case callback of
           Some f \<Rightarrow>
             (case cntxU p of
                None \<Rightarrow> None
              | Some u \<Rightarrow>
                  (case fst up of
                     Some parent \<Rightarrow>
                       Some (Some (parent @ [Interface_copy (f u) begin (usub64 end begin) nm]),
                             snd up)
                   | None \<Rightarrow> Some up))
         | None \<Rightarrow>
             (case fst up of
                Some parent \<Rightarrow>
                  Some (Some (parent @ [Interface_stub begin (usub64 end begin) nm]), snd up)
              | None \<Rightarrow> Some up))
      else Some up)"

section \<open>The grammar nodes and their _parse methods\<close>

text \<open>
  \<^verbatim>\<open>Token::_parse\<close>.  \<open>match\<close> is the \<^verbatim>\<open>bitset<256>\<close> as the set of its members.
  \<^verbatim>\<open>cntxV.back()\<close> of an empty vector is undefined: no result.
\<close>

definition Token_parse :: "string \<Rightarrow> byte set \<Rightarrow> ('d::zero) parse_fn" where
  "Token_parse nm match p =
     (if cntxV p = [] then None
      else
        let cc = (if level p \<noteq> 0 then zero_parse p (input p) (last (cntxV p))
                  else last (cntxV p))
        in if byte_at (input p) cc \<in> match then
             let p1 = (if level p \<noteq> 0
                       then (let q = stub_call cc (cc + 1) nm p in q\<lparr>cntxV := cntxV q @ [cc]\<rparr>)
                       else p);
                 p2 = p1\<lparr>cntxV := cntxV p1 @ [cc + 1]\<rparr>
             in Some (if byte_at (input p) (cc + 1) \<noteq> 0 then eOk else eOk OR eEof, p2)
           else Some (0, p))"

text \<open>
  \<^verbatim>\<open>Action::_parse\<close>: the host function gets the start of the last span and its
  length; it can read the text, so it is a function of the text, an offset and
  a length.
\<close>

definition Action_parse :: "(byte list \<Rightarrow> nat \<Rightarrow> nat \<Rightarrow> bool) \<Rightarrow> 'd parse_fn" where
  "Action_parse action p =
     (if length (cntxV p) < 2 then None
      else
        let itr = cntxV p ! (length (cntxV p) - 2)
        in Some (if action (input p) itr (usub64 (last (cntxV p)) itr) then 1 else 0, p))"

text \<open>
  \<^verbatim>\<open>_And::_parse\<close>.  The children are the \<^verbatim>\<open>_parse\<close> methods of \<^verbatim>\<open>use[i]\<close>; a child
  that does not return makes the sequence not return.  \<open>And_loop\<close> is the
  \<^verbatim>\<open>for\<close> loop over the remaining children; \<open>stat\<close> is the status after the
  loop's increment expression.  When a child fails while \<open>eTry\<close> is pending, the
  level is not 0 and no \<open>Skip\<close> is pending (\<open>save\<close> is 0), the loop asks the host
  through \<^verbatim>\<open>parser->Catch()\<close> and joins what it returns to the status.
\<close>

fun And_loop ::
  "nat \<Rightarrow> ('d parse_fn) list \<Rightarrow> status \<Rightarrow> nat \<Rightarrow> 'd parser \<Rightarrow> (status \<times> 'd parser) option"
where
  "And_loop sz [] stat save p =
     Some ((if stat AND eTry \<noteq> 0 then eRet else eNone) OR eOk OR (stat AND NOT (eTry OR eSkip)),
           p)"
| "And_loop sz (u # us) stat save p =
     (case u p of
        None \<Rightarrow> None
      | Some (r, p1) \<Rightarrow>
          (let stat1 = stat OR r in
           if stat1 AND (eOk OR eError) = eOk then
             (let p2 = (if save \<noteq> 0 then p1\<lparr>cntxV := resize save (cntxV p1)\<rparr> else p1);
                  save2 = (if stat1 AND eSkip \<noteq> 0 then length (cntxV p2) else 0)
              in And_loop sz us (stat1 AND NOT (eSkip OR eRet OR eOk)) save2 p2)
           else
             (let stat2 = (if level p1 \<noteq> 0 \<and> stat1 AND eTry \<noteq> 0
                              \<and> \<not> (stat1 AND eError \<noteq> 0) \<and> save = 0
                           then stat1 OR Catch p1 (input p1) (cntxV p1) else stat1)
              in case erase sz 0 p1 of
                   None \<Rightarrow> None
                 | Some p3 \<Rightarrow>
                     Some ((if stat2 AND (eEof OR eOver) \<noteq> 0 then eError else eErr)
                             OR (stat2 AND NOT (eTry OR eSkip OR eOk)),
                           p3))))"

definition And_parse :: "('d parse_fn) list \<Rightarrow> 'd parse_fn" where
  "And_parse use p = And_loop (length (cntxV p)) use 0 0 p"

text \<open>
  \<^verbatim>\<open>_Or::_parse\<close>.  \<open>Or_loop\<close> is the \<^verbatim>\<open>for\<close> loop; it returns the status, \<open>max\<close>
  and \<open>tmp\<close> with which the loop is left.  \<open>tmp\<close> and \<open>max\<close> are \<^verbatim>\<open>int\<close>: the difference
  of the two pointers is converted to \<^verbatim>\<open>int\<close> when it is stored in \<open>tmp\<close>.
  \<^verbatim>\<open>cntxV.back()\<close> is read only when the status has \<open>eOk\<close> or \<open>eError\<close>.
\<close>

fun Or_loop ::
  "nat \<Rightarrow> nat \<Rightarrow> ('d parse_fn) list \<Rightarrow> status \<Rightarrow> int \<Rightarrow> int \<Rightarrow> 'd parser
     \<Rightarrow> (status \<times> int \<times> int \<times> 'd parser) option"
where
  "Or_loop org sz [] stat mx tmp p = Some (stat, mx, tmp, p)"
| "Or_loop org sz (u # us) stat mx tmp p =
     (let msize = length (cntxV p);
          p0 = (if msize > sz then p\<lparr>cntxV := cntxV p @ [org]\<rparr> else p)
      in case u p0 of
           None \<Rightarrow> None
         | Some (r, p1) \<Rightarrow>
             (let stat1 = stat OR r in
              if stat1 AND (eOk OR eError) \<noteq> 0 \<and> cntxV p1 = [] then None
              else
                (let tmp1 = (if stat1 AND (eOk OR eError) \<noteq> 0
                             then narrow (int (last (cntxV p1)) - int org) else tmp)
                 in if stat1 AND (eOk OR eError) \<noteq> 0
                       \<and> (tmp1 > mx \<or> (tmp1 > 0 \<and> stat1 AND (eRet OR e1st OR eError) \<noteq> 0))
                    then
                      (case (if msize > sz then erase sz (msize + 1) p1 else Some p1) of
                         None \<Rightarrow> None
                       | Some p2 \<Rightarrow>
                           if stat1 AND (eRet OR e1st OR eError) \<noteq> 0
                           then Some (stat1, tmp1, tmp1, p2)
                           else Or_loop org sz us (stat1 AND NOT (eOk OR eRet OR eError))
                                  tmp1 tmp1 p2)
                    else
                      (case (if length (cntxV p1) > msize then erase msize 0 p1 else Some p1) of
                         None \<Rightarrow> None
                       | Some p2 \<Rightarrow>
                           Or_loop org sz us (stat1 AND NOT (eOk OR eRet OR eError))
                             mx tmp1 p2))))"

definition Or_parse :: "('d parse_fn) list \<Rightarrow> 'd parse_fn" where
  "Or_parse use p =
     (if cntxV p = [] then None
      else
        case Or_loop (last (cntxV p)) (length (cntxV p)) use 0 0 (- 1) p of
          None \<Rightarrow> None
        | Some (stat, mx, tmp, p') \<Rightarrow>
            Some ((if mx \<noteq> 0 \<or> tmp \<ge> 0 then stat OR eOk else stat AND NOT eOk)
                    AND NOT (e1st OR eRet),
                  p'))"

text \<open>
  \<^verbatim>\<open>_Cycle\<close>: the constructor's conversion of \<^verbatim>\<open>at_least\<close> and \<^verbatim>\<open>total\<close> to
  \<^verbatim>\<open>unsigned int\<close> and its choice of \<open>flag\<close>, and \<^verbatim>\<open>_Cycle::_parse\<close>.
\<close>

definition Cycle_min :: "int \<Rightarrow> nat" where
  "Cycle_min at_least = nat (at_least mod 2 ^ 32)"

definition Cycle_max :: "int \<Rightarrow> nat" where
  "Cycle_max tot = nat (tot mod 2 ^ 32)"

definition Cycle_flag :: "int \<Rightarrow> int \<Rightarrow> status" where
  "Cycle_flag tot limit = (if tot < limit then eNone else eOver)"

function Cycle_loop ::
  "nat \<Rightarrow> nat \<Rightarrow> status \<Rightarrow> 'd parse_fn \<Rightarrow> nat \<Rightarrow> status \<Rightarrow> 'd parser
     \<Rightarrow> (status \<times> 'd parser) option"
where
  "Cycle_loop mn mx flag u i stat p =
     (if i < mx then
        (case u p of
           None \<Rightarrow> None
         | Some (r, p1) \<Rightarrow>
             if (stat OR r) AND (eOk OR eError) = eOk
             then Cycle_loop mn mx flag u (i + 1)
                    ((stat OR r) AND NOT (e1st OR eTry OR eSkip OR eRet OR eOk)) p1
             else Some (if i < mn then (stat OR r) AND NOT eOk else (stat OR r) OR eOk, p1))
      else Some (stat OR flag OR eOk, p))"
  by pat_completeness auto
termination
  by (relation "measure (\<lambda>(mn, mx, flag, u, i, stat, p). mx - i)") auto

declare Cycle_loop.simps [simp del]

definition Cycle_parse :: "nat \<Rightarrow> nat \<Rightarrow> status \<Rightarrow> 'd parse_fn \<Rightarrow> 'd parse_fn" where
  "Cycle_parse mn mx flag u p = Cycle_loop mn mx flag u 0 0 p"

text \<open>
  \<^verbatim>\<open>Lexem::_parse\<close>.  \<open>use\<close> is \<open>None\<close> when the production has no body, else the
  body's \<^verbatim>\<open>_parse\<close> together with the outcome of
  \<^verbatim>\<open>dynamic_cast<const Action*>(use[0])\<close>.
\<close>

definition Lexem_parse ::
  "string \<Rightarrow> (bool \<times> ('d::zero) parse_fn) option \<Rightarrow> 'd parse_fn"
where
  "Lexem_parse nm use p =
     (case use of
        None \<Rightarrow> Some (eError OR eBadLexem, p)
      | Some (is_action, body) \<Rightarrow>
          if level p = 0 \<or> is_action then body p
          else if cntxV p = [] then None
          else
            (let sz = length (cntxV p);
                 org = zero_parse p (input p) (last (cntxV p))
             in case body (p\<lparr>cntxV := cntxV p @ [org], level := level p - 1\<rparr>) of
                  None \<Rightarrow> None
                | Some (stat, p1) \<Rightarrow>
                    (let p2 = p1\<lparr>level := level p1 + 1\<rparr> in
                     if stat AND eOk \<noteq> 0 \<and> usub64 (length (cntxV p2)) sz > 1 then
                       (if length (cntxV p2) \<le> sz + 1 then None
                        else
                          (let p3 = stub_call org (last (cntxV p2)) nm p2
                           in Some (stat,
                                p3\<lparr>cntxV :=
                                     resize (sz + 2) ((cntxV p3)[sz + 1 := last (cntxV p3)])\<rparr>)))
                     else Some (stat, p2\<lparr>cntxV := resize sz (cntxV p2)\<rparr>))))"

text \<open>\<^verbatim>\<open>Rule::_parse\<close>, with the production's callback (null: \<open>None\<close>).\<close>

definition Rule_parse ::
  "string \<Rightarrow> 'd callback option \<Rightarrow> (bool \<times> ('d::zero) parse_fn) option \<Rightarrow> 'd parse_fn"
where
  "Rule_parse nm callback use p =
     (case use of
        None \<Rightarrow> Some (eError OR eBadRule, p)
      | Some (is_action, body) \<Rightarrow>
          if level p = 0 then Some (eError OR eBadRule, p)
          else if is_action then body p
          else
            (let sz = length (cntxV p);
                 pc = pre_call callback p
             in case body (snd pc) of
                  None \<Rightarrow> None
                | Some (stat, p1) \<Rightarrow>
                    if stat AND eOk \<noteq> 0 \<and> usub64 (length (cntxV p1)) sz > 1 then
                      (if length (cntxV p1) \<le> sz + 1 then None
                       else
                         (case do_call (fst pc) callback (cntxV p1 ! sz) (last (cntxV p1)) nm p1 of
                            None \<Rightarrow> None
                          | Some up \<Rightarrow>
                              Some (stat,
                                post_call up
                                  (p1\<lparr>cntxV :=
                                       resize (sz + 2)
                                         ((cntxV p1)[sz + 1 := last (cntxV p1)])\<rparr>))))
                    else Some (stat, post_call (fst pc) (p1\<lparr>cntxV := resize sz (cntxV p1)\<rparr>))))"

section \<open>The node graph and the interpreter\<close>

text \<open>
  The variants of \<^verbatim>\<open>_Tie\<close>.  A control statement \<^verbatim>\<open>_Ctrl<flg, cc>\<close> keeps its flag
  pattern; a repetition its \<open>min\<close>, \<open>max\<close>, \<open>flag\<close> and body.  Named productions
  (\<^verbatim>\<open>Lexem\<close>, \<^verbatim>\<open>Rule\<close>) point to their body, and a body may point back to the
  production: \<open>use[0]\<close> of a named production is a handle into a table of bodies
  (\<open>None\<close> when \<open>use\<close> is empty), so that the graph may be cyclic.
\<close>

datatype 'd node =
    Ctrl status
  | Token string "byte set"
  | Action "byte list \<Rightarrow> nat \<Rightarrow> nat \<Rightarrow> bool"
  | And "'d node list"
  | Or "'d node list"
  | Cycle nat nat status "'d node"
  | Lexem string "nat option"
  | Rule string "nat option" "'d callback option"

type_synonym 'd grammar = "nat \<Rightarrow> 'd node"

definition Null :: "'d node" where "Null = Ctrl eOk"
definition Return :: "'d node" where "Return = Ctrl (eOk OR eRet)"
definition AcceptFirst :: "'d node" where "AcceptFirst = Ctrl e1st"
definition Try :: "'d node" where "Try = Ctrl (eOk OR eTry)"
definition Skip :: "'d node" where "Skip = Ctrl (eOk OR eSkip)"

fun is_Action :: "'d node \<Rightarrow> bool" where
  "is_Action (Action f) = True"
| "is_Action _ = False"

text \<open>
  The virtual call \<^verbatim>\<open>node->_parse(parser)\<close>.  The recursion of the C++ need not
  end (a production may call itself without consuming), so the interpreter
  counts the depth of nested calls it may still make: \<open>None\<close> when that depth
  is used up, or when the C++ has no defined result.
\<close>

primrec parse :: "nat \<Rightarrow> ('d::zero) grammar \<Rightarrow> 'd node \<Rightarrow> 'd parse_fn" where
  "parse 0 g nd p = None"
| "parse (Suc n) g nd p =
     (case nd of
        Ctrl flg \<Rightarrow> Some (flg, p)
      | Token nm match \<Rightarrow> Token_parse nm match p
      | Action f \<Rightarrow> Action_parse f p
      | And use \<Rightarrow> And_parse (map (parse n g) use) p
      | Or use \<Rightarrow> Or_parse (map (parse n g) use) p
      | Cycle mn mx flag u \<Rightarrow> Cycle_parse mn mx flag (parse n g u) p
      | Lexem nm use \<Rightarrow>
          Lexem_parse nm (map_option (\<lambda>h. (is_Action (g h), parse n g (g h))) use) p
      | Rule nm use callback \<Rightarrow>
          Rule_parse nm callback (map_option (\<lambda>h. (is_Action (g h), parse n g (g h))) use) p)"

section \<open>Entry points\<close>

text \<open>
  The constructors \<^verbatim>\<open>_Base()\<close> and \<^verbatim>\<open>_Parser<U>(res)\<close>, \<^verbatim>\<open>_Base::_analyze\<close>,
  \<^verbatim>\<open>_Base::Get_tail\<close> (which returns the status and the value stored through
  \<open>pstop\<close>) and \<^verbatim>\<open>Analyze(root, text, parser)\<close>, whose two operands of \<open>|\<close> are
  taken in the order written.
\<close>

definition Base_new :: "'d parser" where
  "Base_new = \<lparr>input = [], zero_parse = Base_zero_parse, Catch = Base_Catch, cntxV = [],
               level = 1, derived = False, cntxU = None, off = 0\<rparr>"

definition Parser_new :: "'d Interface list option \<Rightarrow> 'd parser" where
  "Parser_new res = \<lparr>input = [], zero_parse = Base_zero_parse, Catch = Base_Catch,
                      cntxV = [], level = 1, derived = True, cntxU = res, off = 0\<rparr>"

definition analyze :: "nat \<Rightarrow> ('d::zero) grammar \<Rightarrow> 'd node \<Rightarrow> byte list \<Rightarrow> 'd parse_fn" where
  "analyze n g root txt p = parse n g root (p\<lparr>input := txt, cntxV := cntxV p @ [0, 0]\<rparr>)"

definition Get_tail :: "'d parser \<Rightarrow> (status \<times> nat) option" where
  "Get_tail p =
     (if cntxV p = [] then None
      else
        let ptr = zero_parse p (input p) (last (cntxV p))
        in Some (if byte_at (input p) ptr \<noteq> 0 then eError OR eRest else 0, ptr))"

definition Analyze ::
  "nat \<Rightarrow> ('d::zero) grammar \<Rightarrow> 'd node \<Rightarrow> byte list \<Rightarrow> 'd parser \<Rightarrow> (status \<times> 'd parser) option"
where
  "Analyze n g root txt p =
     (case analyze n g root txt p of
        None \<Rightarrow> None
      | Some (stat, p1) \<Rightarrow>
          (case Get_tail p1 of
             None \<Rightarrow> None
           | Some (t, ptr) \<Rightarrow> Some (stat OR t, p1)))"

section \<open>Reading a result; starting contexts\<close>

text \<open>
  What a host reads off a returned context: the status, the cursor stack and the
  semantic vector.  \<open>at_start\<close> is a plain \<^verbatim>\<open>_Base\<close> context right after
  \<^verbatim>\<open>_analyze\<close> has pushed the text twice; \<open>in_rule\<close> is the \<^verbatim>\<open>_Parser<U>\<close> context in
  which the body of a root production with a callback starts (a fresh vector,
  \<open>off = 2\<close>).  \<open>count_children\<close> is a callback that reports how many child values
  it was given.
\<close>

definition observe :: "(status \<times> 'd parser) option \<Rightarrow> (status \<times> nat list \<times> 'd Interface list option) option" where
  "observe r = map_option (\<lambda>(s, p). (s, cntxV p, cntxU p)) r"

definition count_children :: "int callback" where
  "count_children res = \<lparr>data_I = int (length res), text_I = 0, length_I = 0, name_I = []\<rparr>"

definition in_rule :: "byte list \<Rightarrow> int parser" where
  "in_rule txt = (Parser_new (Some []))\<lparr>input := txt, cntxV := [0, 0], off := 2\<rparr>"

definition at_start :: "byte list \<Rightarrow> int parser" where
  "at_start txt = Base_new\<lparr>input := txt, cntxV := [0, 0]\<rparr>"

text \<open>
  \<open>iterated u k acc p q\<close>: from \<open>p\<close>, \<open>k\<close> evaluations of the body \<open>u\<close> in a row matched
  (each status joined to the accumulated one has \<open>eOk\<close> and not \<open>eError\<close>) and led to
  \<open>q\<close>; \<open>acc\<close> is the status accumulated by the loop of \<^verbatim>\<open>_Cycle::_parse\<close>, its
  control bits cleared after every iteration.
\<close>

inductive iterated :: "'d parse_fn \<Rightarrow> nat \<Rightarrow> status \<Rightarrow> 'd parser \<Rightarrow> 'd parser \<Rightarrow> bool"
  for u :: "'d parse_fn"
where
  zero: "iterated u 0 0 p p"
| step: "iterated u k acc p q \<Longrightarrow> u q = Some (r, q')
         \<Longrightarrow> (acc OR r) AND (eOk OR eError) = eOk
         \<Longrightarrow> iterated u (Suc k) ((acc OR r) AND NOT (e1st OR eTry OR eSkip OR eRet OR eOk)) p q'"

text \<open>
  For the cursor bound: \<open>no_nul\<close> says that no terminal of a node has the byte 0 in
  its class (named productions are looked up in the table of bodies, which is
  checked for every handle); \<open>bounded\<close> says that the context uses the default
  skipper and that no cursor on its stack lies behind the sentinel;
  \<open>keeps_bounded\<close> that a \<^verbatim>\<open>_parse\<close> method keeps the text and that bound.
\<close>

fun no_nul :: "'d node \<Rightarrow> bool" where
  "no_nul (Token nm match) = (0 \<notin> match)"
| "no_nul (And use) = (\<forall>u \<in> set use. no_nul u)"
| "no_nul (Or use) = (\<forall>u \<in> set use. no_nul u)"
| "no_nul (Cycle mn mx flag u) = no_nul u"
| "no_nul _ = True"

definition bounded :: "'d parser \<Rightarrow> bool" where
  "bounded p = (zero_parse p = Base_zero_parse \<and> (\<forall>c \<in> set (cntxV p). c \<le> length (input p)))"

definition keeps_bounded :: "'d parse_fn \<Rightarrow> bool" where
  "keeps_bounded f = (\<forall>p s p'. bounded p \<and> f p = Some (s, p') \<longrightarrow> bounded p' \<and> input p' = input p)"



text \<open>
  For alternations.  \<open>like p q\<close> says that \<open>q\<close> has the text, the two host hooks, the
  level and the class of \<open>p\<close>.  In a \<open>plain\<close> context \<^verbatim>\<open>_erase\<close> touches the cursor
  stack only: the object is a \<^verbatim>\<open>_Base\<close>, or the level is 0.  A child is \<open>pushing\<close>
  (relative to \<open>p\<close>) when, evaluated in a context like \<open>p\<close>, it keeps these and only
  pushes on the cursor stack; it is \<open>steady\<close> when moreover it does not move the
  cursor backwards.

  \<open>started p q\<close>: \<open>q\<close> is a context in which an alternation entered with \<open>p\<close> may
  evaluate a child: it is like \<open>p\<close>, its cursor stack is that of \<open>p\<close> with further
  entries on top, and its cursor is the cursor of \<open>p\<close>.  \<open>outcome p u (r, zs)\<close>:
  evaluated in such a context, the child \<open>u\<close> has returned the status \<open>r\<close> and pushed
  the cursors \<open>zs\<close>.  \<open>succeeds_at p u\<close>: whenever \<open>u\<close> returns in such a context, it
  returns \<open>eOk\<close>.
\<close>

definition like :: "'d parser \<Rightarrow> 'd parser \<Rightarrow> bool" where
  "like p q = (input q = input p \<and> zero_parse q = zero_parse p \<and> Catch q = Catch p
               \<and> level q = level p \<and> derived q = derived p)"


definition pushing :: "'d parser \<Rightarrow> 'd parse_fn \<Rightarrow> bool" where
  "pushing p u = (\<forall>q r q'. like p q \<and> u q = Some (r, q')
       \<longrightarrow> like p q' \<and> (\<exists>zs. cntxV q' = cntxV q @ zs))"

definition steady :: "'d parser \<Rightarrow> 'd parse_fn \<Rightarrow> bool" where
  "steady p u = (\<forall>q r q'. like p q \<and> cntxV q \<noteq> [] \<and> u q = Some (r, q')
       \<longrightarrow> like p q' \<and> (\<exists>zs. cntxV q' = cntxV q @ zs) \<and> last (cntxV q) \<le> last (cntxV q'))"




text \<open>
  For the choice of an alternation, over the list \<open>outs\<close> of the outcomes of the
  children it has evaluated, in their order.  \<open>advance org zs\<close> is the cursor
  advance of the pushes \<open>zs\<close> from the entry cursor \<open>org\<close> as \<^verbatim>\<open>_Or::_parse\<close> measures
  it, in an \<^verbatim>\<open>int\<close>: on a text shorter than \<open>2 ^ 31\<close> bytes it is the distance in
  bytes.  \<open>joined\<close> is the status that the loop accumulates over outcomes: their
  bits, with \<open>eOk\<close>, \<open>eRet\<close> and \<open>eError\<close> cleared after each.  \<open>tested outs\<close> is the
  status that the loop tests after the last of \<open>outs\<close>: the status of that outcome
  joined to what the outcomes before it have left.  \<open>stops org outs\<close>: the last of
  \<open>outs\<close> ends the loop, being accepted at once: the tested status has \<open>eOk\<close> or
  \<open>eError\<close>, the outcome advances, and the tested status has \<open>eRet\<close>, \<open>e1st\<close> or
  \<open>eError\<close>.  \<open>last_advance org outs\<close> is the advance of the last outcome whose
  status has \<open>eOk\<close> or \<open>eError\<close>, and \<open>- 1\<close> when there is none.

  \<open>chosen org outs mx w\<close> says, in the words of the specification, which pushes \<open>w\<close>
  are accepted among the outcomes \<open>outs\<close>: none, with \<open>mx = 0\<close>, when no succeeding
  alternative advances; else those of a succeeding alternative of advance
  \<open>mx > 0\<close> such that every succeeding alternative before it advances less and
  every one after it advances no more.
\<close>

definition advance :: "nat \<Rightarrow> nat list \<Rightarrow> int" where
  "advance org zs = (if zs = [] then 0 else narrow (int (last zs) - int org))"

definition joined :: "status \<Rightarrow> (status \<times> nat list) list \<Rightarrow> status" where
  "joined acc outs = foldl (\<lambda>a out. (a OR fst out) AND NOT (eOk OR eRet OR eError)) acc outs"

definition tested :: "(status \<times> nat list) list \<Rightarrow> status" where
  "tested outs = joined 0 (butlast outs) OR fst (last outs)"

definition stops :: "nat \<Rightarrow> (status \<times> nat list) list \<Rightarrow> bool" where
  "stops org outs = (outs \<noteq> [] \<and> tested outs AND (eOk OR eError) \<noteq> 0
       \<and> 0 < advance org (snd (last outs))
       \<and> tested outs AND (eRet OR e1st OR eError) \<noteq> 0)"

definition last_advance :: "nat \<Rightarrow> (status \<times> nat list) list \<Rightarrow> int" where
  "last_advance org outs =
     foldl (\<lambda>t out. if fst out AND (eOk OR eError) \<noteq> 0 then advance org (snd out) else t) (- 1) outs"

definition chosen :: "nat \<Rightarrow> (status \<times> nat list) list \<Rightarrow> int \<Rightarrow> nat list \<Rightarrow> bool" where
  "chosen org outs mx w =
     ((mx = 0 \<and> w = [] \<and> (\<forall>out \<in> set outs. fst out AND eOk \<noteq> 0 \<longrightarrow> advance org (snd out) \<le> 0))
      \<or> (0 < mx \<and> (\<exists>before r after. outs = before @ (r, w) # after \<and> r AND eOk \<noteq> 0
              \<and> advance org w = mx
              \<and> (\<forall>out \<in> set before. fst out AND eOk \<noteq> 0 \<longrightarrow> advance org (snd out) < mx)
              \<and> (\<forall>out \<in> set after. fst out AND eOk \<noteq> 0 \<longrightarrow> advance org (snd out) \<le> mx))))"



section \<open>Reading status bits\<close>

text \<open>
  Every test the interpreter makes on a status is a test of single bits: \<open>eOk\<close> is
  bit 0, \<open>eRet\<close> bit 3, \<open>e1st\<close> bit 4, \<open>eSkip\<close> bit 5, \<open>eTry\<close> bit 7, \<open>eRest\<close> bit 8,
  \<open>eOver\<close> bit 10, \<open>eEof\<close> bit 11, \<open>eBadRule\<close> bit 12, \<open>eBadLexem\<close> bit 13 and \<open>eError\<close>
  bit 31.
\<close>

lemma and_exp_status: "((s::status) AND 2 ^ k = 0) = (\<not> bit s k)"
  by (simp add: and_exp_eq_0_iff_not_bit)

lemma and_exp_status_eq:
  assumes "k < 32"
  shows "((s::status) AND 2 ^ k = 2 ^ k) = bit s k"
proof
  assume a: "s AND 2 ^ k = 2 ^ k"
  have "bit (s AND 2 ^ k) k" unfolding a using assms by (simp add: bit_exp_iff)
  then show "bit s k" by (simp add: bit_and_iff)
next
  assume b: "bit s k"
  show "s AND 2 ^ k = 2 ^ k"
    by (rule bit_eqI) (auto simp add: bit_and_iff bit_exp_iff b)
qed

lemma test_eOk: "(s AND eOk = 0) = (\<not> bit s 0)"
  using and_exp_status [of s 0] by (simp add: eOk_def)
lemma test_eRet: "(s AND eRet = 0) = (\<not> bit s 3)"
  using and_exp_status [of s 3] by (simp add: eRet_def)
lemma test_e1st: "(s AND e1st = 0) = (\<not> bit s 4)"
  using and_exp_status [of s 4] by (simp add: e1st_def)
lemma test_eSkip: "(s AND eSkip = 0) = (\<not> bit s 5)"
  using and_exp_status [of s 5] by (simp add: eSkip_def)
lemma test_eTry: "(s AND eTry = 0) = (\<not> bit s 7)"
  using and_exp_status [of s 7] by (simp add: eTry_def)
lemma test_eRest: "(s AND eRest = 0) = (\<not> bit s 8)"
  using and_exp_status [of s 8] by (simp add: eRest_def)
lemma test_eOver: "(s AND eOver = 0) = (\<not> bit s 10)"
  using and_exp_status [of s 10] by (simp add: eOver_def)
lemma test_eEof: "(s AND eEof = 0) = (\<not> bit s 11)"
  using and_exp_status [of s 11] by (simp add: eEof_def)
lemma test_eBadRule: "(s AND eBadRule = 0) = (\<not> bit s 12)"
  using and_exp_status [of s 12] by (simp add: eBadRule_def)
lemma test_eBadLexem: "(s AND eBadLexem = 0) = (\<not> bit s 13)"
  using and_exp_status [of s 13] by (simp add: eBadLexem_def)
lemma test_eError: "(s AND eError = 0) = (\<not> bit s 31)"
  using and_exp_status [of s 31] by (simp add: eError_def)

lemma test_mask2: "((s::status) AND (f OR g) = 0) = (s AND f = 0 \<and> s AND g = 0)"
  by (simp add: bit.conj_disj_distrib or_eq_0_iff)

lemma test_ok_noerr: "(s AND (eOk OR eError) = eOk) = (bit s 0 \<and> \<not> bit s 31)"
proof -
  have d: "s AND (eOk OR eError) = (s AND eOk) OR (s AND eError)"
    by (rule bit.conj_disj_distrib)
  have c0: "s AND eOk = (if bit s 0 then eOk else 0)"
    using and_exp_status [of s 0] and_exp_status_eq [of 0 s] by (simp add: eOk_def)
  have c31: "s AND eError = (if bit s 31 then eError else 0)"
    using and_exp_status [of s 31] and_exp_status_eq [of 31 s] by (simp add: eError_def)
  show ?thesis unfolding d c0 c31 by (simp add: eOk_def eError_def)
qed

lemmas status_tests = test_mask2 test_eOk test_eRet test_e1st test_eSkip test_eTry test_eRest
  test_eOver test_eEof test_eBadRule test_eBadLexem test_eError test_ok_noerr
lemmas status_defs = eNone_def eErr_def eOk_def eRet_def e1st_def eSkip_def eTry_def eRest_def
  eOver_def eEof_def eBadRule_def eBadLexem_def eError_def
lemmas status_bits = bit_or_iff bit_and_iff bit_not_iff


section \<open>Terminals\<close>

text \<open>
  Claim C3.  A terminal first skips with \<open>zero_parse\<close> when the level is not 0, then
  tests the byte under the cursor \<open>cc\<close> against its class.  On a non-match it
  returns 0 and the context is unchanged.  On a match it returns \<open>eOk\<close>, with \<open>eEof\<close>
  exactly when the byte after the match is the sentinel; the new cursor is
  \<open>cc + 1\<close>; and only when the level is not 0 it pushes the start of the span on
  the cursor stack and a stub of length 1 on the semantic vector (if the context
  has one).
\<close>

theorem Token_parse_terminal:
  assumes "cntxV p \<noteq> []"
    and "cc = (if level p \<noteq> 0 then zero_parse p (input p) (last (cntxV p)) else last (cntxV p))"
  shows "(byte_at (input p) cc \<notin> match \<longrightarrow> Token_parse nm match p = Some (0, p))
    \<and> (byte_at (input p) cc \<in> match \<longrightarrow>
         (\<exists>stat p'. Token_parse nm match p = Some (stat, p')
            \<and> stat = (if byte_at (input p) (cc + 1) = 0 then eOk OR eEof else eOk)
            \<and> stat AND eOk \<noteq> 0
            \<and> ((stat AND eEof \<noteq> 0) = (byte_at (input p) (cc + 1) = 0))
            \<and> last (cntxV p') = cc + 1
            \<and> cntxV p' = cntxV p @ (if level p \<noteq> 0 then [cc, cc + 1] else [cc + 1])
            \<and> cntxU p' = (if level p \<noteq> 0 \<and> derived p
                            then map_option (\<lambda>u. u @ [Interface_stub cc 1 nm]) (cntxU p)
                            else cntxU p)
            \<and> level p' = level p \<and> input p' = input p \<and> off p' = off p))"
proof -
  have one: "usub64 (Suc x) x = Suc 0" for x by (simp add: usub64_def)
  have bits: "eOk AND eOk \<noteq> 0" "(eOk OR eEof) AND eOk \<noteq> 0" "eOk AND eEof = 0"
    "(eOk OR eEof) AND eEof \<noteq> 0"
    by (simp_all add: status_defs)
  show ?thesis
    using assms bits
    by (auto simp add: Token_parse_def Let_def stub_call_def one split: option.splits)
qed

text \<open>The theorem at the text \<open>"a "\<close>, in syntactic mode with a semantic vector.\<close>

theorem Token_parse_terminal_witness:
  "cntxV ((Parser_new (Some []) :: int parser)\<lparr>input := [97, 32], cntxV := [0, 0]\<rparr>) \<noteq> []
   \<and> (\<exists>p'. Token_parse ''a'' {97}
              ((Parser_new (Some []) :: int parser)\<lparr>input := [97, 32], cntxV := [0, 0]\<rparr>)
            = Some (eOk, p')
          \<and> cntxV p' = [0, 0, 0, 1] \<and> cntxU p' = Some [Interface_stub 0 1 ''a''])"
proof -
  let ?p = "(Parser_new (Some []) :: int parser)\<lparr>input := [97, 32], cntxV := [0, 0]\<rparr>"
  have h1: "cntxV ?p \<noteq> []" by simp
  have h2: "0 = (if level ?p \<noteq> 0 then zero_parse ?p (input ?p) (last (cntxV ?p))
                 else last (cntxV ?p))"
    by (simp add: Parser_new_def Base_zero_parse.simps byte_at_def)
  have m: "byte_at (input ?p) 0 \<in> {97}" "byte_at (input ?p) (0 + 1) \<noteq> 0"
    "level ?p \<noteq> 0" "derived ?p" "cntxU ?p = Some []"
    by (simp_all add: byte_at_def Parser_new_def)
  from Token_parse_terminal [OF h1 h2, of "{97}" "''a''"] m h1 show ?thesis
    by auto
qed

section \<open>Named productions without a body\<close>

text \<open>
  Claim C8.  A syntactic production without a body, or evaluated at level 0,
  returns \<open>eError | eBadRule\<close> and leaves the context as it is, whatever its body
  and callback are (the body may even be one that never returns, and the
  interpreter needs no further depth); a lexical production without a body
  returns \<open>eError | eBadLexem\<close> likewise.  Both statuses carry the error bit and
  not \<open>eOk\<close>.
\<close>

theorem malformed_production_fatal:
  "Rule_parse nm callback None p = Some (eError OR eBadRule, p)
   \<and> (level p = 0 \<longrightarrow> Rule_parse nm callback body p = Some (eError OR eBadRule, p))
   \<and> Lexem_parse nm None p = Some (eError OR eBadLexem, p)
   \<and> parse (Suc n) g (Rule nm None callback) p = Some (eError OR eBadRule, p)
   \<and> (level p = 0 \<longrightarrow> parse (Suc n) g (Rule nm use callback) p = Some (eError OR eBadRule, p))
   \<and> parse (Suc n) g (Lexem nm None) p = Some (eError OR eBadLexem, p)
   \<and> (eError OR eBadRule) AND eError \<noteq> 0 \<and> (eError OR eBadRule) AND eBadRule \<noteq> 0
   \<and> (eError OR eBadRule) AND eOk = 0
   \<and> (eError OR eBadLexem) AND eError \<noteq> 0 \<and> (eError OR eBadLexem) AND eBadLexem \<noteq> 0
   \<and> (eError OR eBadLexem) AND eOk = 0"
proof -
  have bits: "(eError OR eBadRule) AND eError \<noteq> 0" "(eError OR eBadRule) AND eBadRule \<noteq> 0"
    "(eError OR eBadRule) AND eOk = 0" "(eError OR eBadLexem) AND eError \<noteq> 0"
    "(eError OR eBadLexem) AND eBadLexem \<noteq> 0" "(eError OR eBadLexem) AND eOk = 0"
    by (simp_all add: status_defs)
  have r0: "level p = 0 \<Longrightarrow> Rule_parse nm callback b p = Some (eError OR eBadRule, p)" for b
    by (simp add: Rule_parse_def split: option.splits)
  have r1: "Rule_parse nm callback None p = Some (eError OR eBadRule, p)"
    by (simp add: Rule_parse_def)
  have l1: "Lexem_parse nm None p = Some (eError OR eBadLexem, p)"
    by (simp add: Lexem_parse_def)
  show ?thesis using bits r0 r1 l1 by simp
qed

text \<open>The theorem at level 0, with a body that never returns.\<close>

theorem malformed_production_fatal_witness:
  "level ((Base_new :: int parser)\<lparr>level := 0\<rparr>) = 0
   \<and> Rule_parse ''r'' None (Some (False, \<lambda>q. None)) ((Base_new :: int parser)\<lparr>level := 0\<rparr>)
       = Some (eError OR eBadRule, Base_new\<lparr>level := 0\<rparr>)
   \<and> parse 1 (\<lambda>h. Rule ''r'' (Some h) None) (Rule ''r'' (Some 0) None)
         ((Base_new :: int parser)\<lparr>level := 0\<rparr>)
       = Some (eError OR eBadRule, Base_new\<lparr>level := 0\<rparr>)"
  using malformed_production_fatal [of "''r''" None "(Base_new :: int parser)\<lparr>level := 0\<rparr>"
      "Some (False, \<lambda>q. None)" 0 "\<lambda>h. Rule ''r'' (Some h) None" "Some 0"]
  by simp

section \<open>The Return marker in a sequence\<close>

text \<open>
  Claim C6 says that a sequence returns \<open>eRet | eOk\<close> at once when a child's
  status carries \<open>eRet\<close>.  The loop of \<^verbatim>\<open>_And::_parse\<close> never reads that bit; it
  clears it in its increment expression.  In \<open>Return + "a"\<close> the terminal is
  evaluated: on the text \<open>"b"\<close> the sequence fails with status 0, and on \<open>"a"\<close> it
  consumes the byte and returns without \<open>eRet\<close>.
\<close>

theorem Return_in_sequence_ignored:
  "observe (parse 2 (\<lambda>h. Null) (And [Return, Token ''a'' {97}]) (at_start [98]))
     = Some (0, [0, 0], None)
   \<and> observe (parse 2 (\<lambda>h. Null) (And [Return, Token ''a'' {97}]) (at_start [97]))
     = Some (eOk OR eEof, [0, 0, 0, 1], None)
   \<and> (eOk OR eEof) AND eRet = 0"
  by code_simp

section \<open>Backtracking and the semantic vector\<close>

text \<open>
  Claim C2 says that no semantic value of a rejected alternative survives.  The
  retraction of a lookahead in \<^verbatim>\<open>_And::_parse\<close> resizes the cursor stack only, so
  the stub of the retracted child stays on the semantic vector, and the range that
  \<^verbatim>\<open>_Or::_parse\<close> erases later is computed from cursor indices.  In
  \<open>("a" + Skip() + "b") | ("a" + "b" + "c")\<close> on \<open>"abc"\<close> the second alternative wins, and
  the stub \<open>b\<close> of the first one is still there: the production's callback is given
  four children instead of three.
\<close>

theorem Skip_leaves_stub_of_rejected_alternative:
  "observe (parse 3 (\<lambda>h. Null)
      (Or [And [Token ''a'' {97}, Skip, Token ''b'' {98}],
           And [Token ''a'' {97}, Token ''b'' {98}, Token ''c'' {99}]])
      (in_rule [97, 98, 99]))
     = Some (eOk OR eEof, [0, 0, 0, 1, 1, 2, 2, 3],
         Some [Interface_stub 1 1 ''b'', Interface_stub 0 1 ''a'', Interface_stub 1 1 ''b'',
               Interface_stub 2 1 ''c''])
   \<and> observe (analyze 5
      (\<lambda>h. Or [And [Token ''a'' {97}, Skip, Token ''b'' {98}],
                And [Token ''a'' {97}, Token ''b'' {98}, Token ''c'' {99}]])
      (Rule ''R'' (Some 0) (Some count_children)) [97, 98, 99] (Parser_new (Some [])))
     = Some (eOk OR eEof, [0, 0, 0, 3],
         Some [\<lparr>data_I = 4, text_I = 0, length_I = 3, name_I = ''R''\<rparr>])"
  by code_simp

section \<open>The default skipper\<close>

text \<open>
  \<open>Base_zero_parse\<close> returns the first offset at or after \<open>ptr\<close> whose byte is not a
  blank, tab, line feed or carriage return; it does not pass the sentinel.
\<close>

lemma Base_zero_parse_stop:
  "byte_at t ptr = 0 \<or> (byte_at t ptr \<noteq> 0x20 \<and> byte_at t ptr \<noteq> 0x09
      \<and> byte_at t ptr \<noteq> 0x0A \<and> byte_at t ptr \<noteq> 0x0D)
   \<Longrightarrow> Base_zero_parse t ptr = ptr"
  by (subst Base_zero_parse.simps) auto

lemma Base_zero_parse_step:
  "byte_at t ptr \<in> {0x20, 0x09, 0x0A, 0x0D}
   \<Longrightarrow> Base_zero_parse t ptr = Base_zero_parse t (ptr + 1)"
  by (subst Base_zero_parse.simps) auto

lemma Base_zero_parse_blanks:
  "ptr \<le> Base_zero_parse t ptr
   \<and> (\<forall>i. ptr \<le> i \<and> i < Base_zero_parse t ptr \<longrightarrow> byte_at t i \<in> {0x20, 0x09, 0x0A, 0x0D})
   \<and> byte_at t (Base_zero_parse t ptr) \<notin> {0x20, 0x09, 0x0A, 0x0D}"
proof (induction t ptr rule: Base_zero_parse.induct)
  case (1 t ptr)
  show ?case
  proof (cases "byte_at t ptr \<in> {0x20, 0x09, 0x0A, 0x0D}")
    case True
    then have nz: "byte_at t ptr \<noteq> 0" by auto
    have ih: "ptr + 1 \<le> Base_zero_parse t (ptr + 1)
      \<and> (\<forall>i. ptr + 1 \<le> i \<and> i < Base_zero_parse t (ptr + 1)
             \<longrightarrow> byte_at t i \<in> {0x20, 0x09, 0x0A, 0x0D})
      \<and> byte_at t (Base_zero_parse t (ptr + 1)) \<notin> {0x20, 0x09, 0x0A, 0x0D}"
      using 1 [OF nz] True by auto
    have eq: "Base_zero_parse t ptr = Base_zero_parse t (ptr + 1)"
      using True by (rule Base_zero_parse_step)
    have "byte_at t i \<in> {0x20, 0x09, 0x0A, 0x0D}"
      if "ptr \<le> i" "i < Base_zero_parse t (ptr + 1)" for i
    proof (cases "i = ptr")
      case True
      then show ?thesis using \<open>byte_at t ptr \<in> _\<close> by simp
    next
      case False
      then have "ptr + 1 \<le> i" using that by simp
      then show ?thesis using ih that by blast
    qed
    then show ?thesis unfolding eq using ih by auto
  next
    case False
    then have "Base_zero_parse t ptr = ptr" by (intro Base_zero_parse_stop) auto
    then show ?thesis using False by auto
  qed
qed

lemma Base_zero_parse_le: "ptr \<le> length t \<Longrightarrow> Base_zero_parse t ptr \<le> length t"
proof (rule ccontr)
  assume a: "ptr \<le> length t" and b: "\<not> Base_zero_parse t ptr \<le> length t"
  then have "ptr \<le> length t \<and> length t < Base_zero_parse t ptr" by simp
  then have "byte_at t (length t) \<in> {0x20, 0x09, 0x0A, 0x0D}"
    using Base_zero_parse_blanks [of ptr t] by blast
  then show False by (simp add: byte_at_def)
qed

section \<open>Get_tail\<close>

text \<open>
  Claim C9 as amended.  \<^verbatim>\<open>Get_tail\<close> first applies \<open>zero_parse\<close> to the last cursor.  The
  pointer it stores is the result \<open>ptr\<close>; the status is \<open>eError | eRest\<close> when the byte
  at \<open>ptr\<close> is not the sentinel and 0 when it is.  With the default skipper \<open>ptr\<close> is
  the first byte at or after the cursor that is not a blank, tab, line feed or
  carriage return, so trailing white space is not reported as rest; when the
  cursor is at the sentinel the status is 0 and \<open>ptr\<close> is the cursor.
\<close>

theorem Get_tail_remainder:
  assumes "cntxV p \<noteq> []"
  shows "\<exists>stat ptr. Get_tail p = Some (stat, ptr)
     \<and> ptr = zero_parse p (input p) (last (cntxV p))
     \<and> (byte_at (input p) ptr \<noteq> 0 \<longrightarrow> stat = eError OR eRest \<and> stat AND eRest \<noteq> 0)
     \<and> (byte_at (input p) ptr = 0 \<longrightarrow> stat = 0)
     \<and> (zero_parse p = Base_zero_parse \<longrightarrow>
          last (cntxV p) \<le> ptr
          \<and> (\<forall>i. last (cntxV p) \<le> i \<and> i < ptr
                 \<longrightarrow> byte_at (input p) i \<in> {0x20, 0x09, 0x0A, 0x0D})
          \<and> byte_at (input p) ptr \<notin> {0x20, 0x09, 0x0A, 0x0D}
          \<and> (last (cntxV p) = length (input p) \<longrightarrow> stat = 0 \<and> ptr = length (input p)))"
proof -
  have r: "(eError OR eRest) AND eRest \<noteq> 0" by (simp add: status_defs)
  have e: "Base_zero_parse t (length t) = length t" for t
    by (rule Base_zero_parse_stop) (simp add: byte_at_def)
  have z: "byte_at t (length t) = 0" for t by (simp add: byte_at_def)
  show ?thesis
    using assms r Base_zero_parse_blanks [of "last (cntxV p)" "input p"] e z
    by (auto simp add: Get_tail_def Let_def)
qed


text \<open>The theorem after \<open>"a"\<close> has been matched in \<open>"a "\<close> and in \<open>"ab"\<close>.\<close>

theorem Get_tail_remainder_witness:
  "cntxV (at_start [97, 32]\<lparr>cntxV := [0, 0, 0, 1]\<rparr>) \<noteq> []
   \<and> zero_parse (at_start [97, 32]\<lparr>cntxV := [0, 0, 0, 1]\<rparr>) = Base_zero_parse
   \<and> Get_tail (at_start [97, 32]\<lparr>cntxV := [0, 0, 0, 1]\<rparr>) = Some (0, 2)
   \<and> Get_tail (at_start [97, 98]\<lparr>cntxV := [0, 0, 0, 1]\<rparr>) = Some (eError OR eRest, 1)"
proof -
  let ?p = "at_start [97, 32]\<lparr>cntxV := [0, 0, 0, 1]\<rparr>"
  let ?q = "at_start [97, 98]\<lparr>cntxV := [0, 0, 0, 1]\<rparr>"
  have h: "cntxV ?p \<noteq> []" "cntxV ?q \<noteq> []" by simp_all
  have z: "zero_parse ?p = Base_zero_parse" by (simp add: at_start_def Base_new_def)
  have e: "zero_parse ?p (input ?p) (last (cntxV ?p)) = 2"
    "zero_parse ?q (input ?q) (last (cntxV ?q)) = 1"
    by (simp_all add: at_start_def Base_new_def Base_zero_parse.simps byte_at_def)
  have b: "byte_at (input ?p) 2 = 0" "byte_at (input ?q) 1 \<noteq> 0"
    by (simp_all add: at_start_def byte_at_def)
  show ?thesis
    using Get_tail_remainder [OF h(1)] Get_tail_remainder [OF h(2)] z e b by auto
qed

text \<open>
  Claim C9 as stated fails on trailing white space: after \<open>"a"\<close> has been matched in
  \<open>"a "\<close> the cursor is at offset 1 and the blank there is not consumed, yet
  \<^verbatim>\<open>Get_tail\<close> returns 0 and the pointer 2.
\<close>

theorem Get_tail_first_unconsumed_counterexample:
  "observe (analyze 1 (\<lambda>h. Null) (Token ''a'' {97}) [97, 32] (Base_new :: int parser))
     = Some (eOk, [0, 0, 0, 1], None)
   \<and> byte_at [97, 32] 1 \<noteq> 0
   \<and> Get_tail (at_start [97, 32]\<lparr>cntxV := [0, 0, 0, 1]\<rparr>) = Some (0, 2)"
  by code_simp

section \<open>Sequences and the Skip marker\<close>

lemma resize_length [simp]: "resize (length xs) xs = xs"
  by (simp add: resize_def)


lemma cleared_status:
  "\<not> bit ((s::status) AND NOT (eSkip OR eRet OR eOk)) 0"
  "\<not> bit ((s::status) AND NOT (eSkip OR eRet OR eOk)) 3"
  "\<not> bit ((s::status) AND NOT (eSkip OR eRet OR eOk)) 5"
  "bit ((s::status) AND NOT (eSkip OR eRet OR eOk)) 31 = bit s 31"
  by (simp_all add: status_bits) (simp_all add: status_defs)












section \<open>Repetition\<close>

lemma and_not_self: "((x::status) AND NOT m) AND m = 0"
  by (simp add: and.assoc)

lemma iterated_cleared:
  "iterated u k acc p q \<Longrightarrow> acc AND (e1st OR eTry OR eSkip OR eRet OR eOk) = 0"
  by (induction rule: iterated.induct) (simp_all only: and_not_self and_zero_eq zero_and_eq)

lemma Cycle_loop_char:
  assumes "iterated u i stat p0 p" and "i \<le> mx"
  shows "\<exists>k acc q. k \<le> mx \<and> iterated u k acc p0 q
     \<and> acc AND (e1st OR eTry OR eSkip OR eRet OR eOk) = 0
     \<and> ((k < mx \<and> u q = None \<and> Cycle_loop mn mx flag u i stat p = None)
        \<or> (k < mx \<and> (\<exists>r q'. u q = Some (r, q') \<and> (acc OR r) AND (eOk OR eError) \<noteq> eOk
               \<and> Cycle_loop mn mx flag u i stat p
                   = Some (if k < mn then (acc OR r) AND NOT eOk else (acc OR r) OR eOk, q')))
        \<or> (k = mx \<and> Cycle_loop mn mx flag u i stat p = Some (acc OR flag OR eOk, q)))"
  using assms
proof (induction mn mx flag u i stat p rule: Cycle_loop.induct)
  case (1 mn mx flag u i stat p)
  show ?case
  proof (cases "i < mx")
    case False
    then have i: "i = mx" using 1(3) by simp
    have "Cycle_loop mn mx flag u i stat p = Some (stat OR flag OR eOk, p)"
      using False by (subst Cycle_loop.simps) simp
    then show ?thesis using 1(2) i iterated_cleared [OF 1(2)] by blast
  next
    case True
    show ?thesis
    proof (cases "u p")
      case None
      have "Cycle_loop mn mx flag u i stat p = None"
        using True None by (subst Cycle_loop.simps) simp
      then show ?thesis using 1(2) True None iterated_cleared [OF 1(2)]
        by (intro exI [of _ i] exI [of _ stat] exI [of _ p]) simp
    next
      case (Some a)
      obtain r p1 where a: "a = (r, p1)" by (cases a)
      show ?thesis
      proof (cases "(stat OR r) AND (eOk OR eError) = eOk")
        case ok: True
        let ?st = "(stat OR r) AND NOT (e1st OR eTry OR eSkip OR eRet OR eOk)"
        have it: "iterated u (i + 1) ?st p0 p1"
          using iterated.step [OF 1(2) _ ok] Some a by simp
        have eq: "Cycle_loop mn mx flag u i stat p = Cycle_loop mn mx flag u (i + 1) ?st p1"
          using True Some a ok by (subst Cycle_loop.simps) simp
        have "i + 1 \<le> mx" using True by simp
        from 1(1) [OF True Some a [symmetric] ok it this] show ?thesis unfolding eq .
      next
        case no: False
        have "Cycle_loop mn mx flag u i stat p
              = Some (if i < mn then (stat OR r) AND NOT eOk else (stat OR r) OR eOk, p1)"
          using True Some a no by (subst Cycle_loop.simps) simp
        then show ?thesis using 1(2) True Some a no iterated_cleared [OF 1(2)]
          by (intro exI [of _ i] exI [of _ stat] exI [of _ p]) simp
      qed
    qed
  qed
qed

lemma iterated_Over_origin:
  "iterated u k acc p q \<Longrightarrow> acc AND eOver \<noteq> 0
   \<Longrightarrow> \<exists>j acc' q1 r q2. j < k \<and> iterated u j acc' p q1 \<and> u q1 = Some (r, q2)
         \<and> r AND eOver \<noteq> 0"
proof (induction rule: iterated.induct)
  case (zero p)
  then show ?case by simp
next
  case (step k acc p q r q')
  have "acc AND eOver \<noteq> 0 \<or> r AND eOver \<noteq> 0"
    using step.prems by (simp add: status_tests status_bits)
  then show ?case
  proof
    assume "acc AND eOver \<noteq> 0"
    from step.IH [OF this] obtain j acc' q1 r' q2 where
      "j < k" "iterated u j acc' p q1" "u q1 = Some (r', q2)" "r' AND eOver \<noteq> 0" by blast
    then show ?thesis using less_Suc_eq by blast
  next
    assume "r AND eOver \<noteq> 0"
    then show ?thesis using step.hyps(1,2) by blast
  qed
qed


text \<open>
  Claim C4 as amended.  The body is evaluated in a row from the entry context,
  \<open>k \<le> max\<close> times with a match, the control bits of the accumulated status being
  cleared after each iteration.  Either a further evaluation does not return; or
  \<open>k < max\<close> and a further evaluation fails: the repetition then returns the
  accumulated status without \<open>eOk\<close> when \<open>k < min\<close> and with \<open>eOk\<close> otherwise, in the
  context the body left; or \<open>k = max\<close> and it returns the accumulated status with
  \<open>flag\<close> and \<open>eOk\<close>.  A repetition with \<open>min = 0\<close> that returns has \<open>eOk\<close>, and it
  returns whenever the body does in the contexts reached.  The repetition itself
  adds \<open>eOver\<close> only through \<open>flag\<close>, which has it exactly when \<open>limit \<le> total\<close> at
  construction; an \<open>eOver\<close> bit in the accumulated status comes from the status of
  a body evaluation and is kept.
\<close>

theorem Cycle_parse_repetition:
  "(\<exists>k acc q. k \<le> mx \<and> iterated u k acc p q
       \<and> acc AND (e1st OR eTry OR eSkip OR eRet OR eOk) = 0
       \<and> ((k < mx \<and> u q = None \<and> Cycle_parse mn mx flag u p = None)
          \<or> (k < mx \<and> (\<exists>r q'. u q = Some (r, q') \<and> (acc OR r) AND (eOk OR eError) \<noteq> eOk
                 \<and> Cycle_parse mn mx flag u p
                     = Some (if k < mn then (acc OR r) AND NOT eOk else (acc OR r) OR eOk, q')))
          \<or> (k = mx \<and> Cycle_parse mn mx flag u p = Some (acc OR flag OR eOk, q))))
   \<and> (\<forall>s q. Cycle_parse 0 mx flag u p = Some (s, q) \<longrightarrow> s AND eOk \<noteq> 0)
   \<and> ((\<forall>k acc q. iterated u k acc p q \<longrightarrow> u q \<noteq> None)
        \<longrightarrow> Cycle_parse mn mx flag u p \<noteq> None)
   \<and> (\<forall>k acc q. iterated u k acc p q \<and> acc AND eOver \<noteq> 0
         \<longrightarrow> (\<exists>j acc' q1 r q2. j < k \<and> iterated u j acc' p q1 \<and> u q1 = Some (r, q2)
                \<and> r AND eOver \<noteq> 0))
   \<and> ((((acc0 OR r0) AND NOT eOk) AND eOk = 0) \<and> ((acc0 OR r0) OR eOk) AND eOk \<noteq> 0
        \<and> (acc0 OR flag OR eOk) AND eOk \<noteq> 0
        \<and> ((((acc0 OR r0) AND NOT eOk) AND eOver \<noteq> 0) = (acc0 AND eOver \<noteq> 0 \<or> r0 AND eOver \<noteq> 0))
        \<and> ((((acc0 OR r0) OR eOk) AND eOver \<noteq> 0) = (acc0 AND eOver \<noteq> 0 \<or> r0 AND eOver \<noteq> 0))
        \<and> (((acc0 OR flag OR eOk) AND eOver \<noteq> 0) = (acc0 AND eOver \<noteq> 0 \<or> flag AND eOver \<noteq> 0)))
   \<and> ((Cycle_flag tot limit AND eOver \<noteq> 0) = (limit \<le> tot))
   \<and> parse (Suc n) g (Cycle mn mx flag b) p = Cycle_parse mn mx flag (parse n g b) p"
proof -
  have char: "\<exists>k acc q. k \<le> mx \<and> iterated u k acc p q
       \<and> acc AND (e1st OR eTry OR eSkip OR eRet OR eOk) = 0
       \<and> ((k < mx \<and> u q = None \<and> Cycle_parse m mx flag u p = None)
          \<or> (k < mx \<and> (\<exists>r q'. u q = Some (r, q') \<and> (acc OR r) AND (eOk OR eError) \<noteq> eOk
                 \<and> Cycle_parse m mx flag u p
                     = Some (if k < m then (acc OR r) AND NOT eOk else (acc OR r) OR eOk, q')))
          \<or> (k = mx \<and> Cycle_parse m mx flag u p = Some (acc OR flag OR eOk, q)))" for m
    using Cycle_loop_char [OF iterated.zero, of mx u p m flag]
    unfolding Cycle_parse_def by simp
  have ok: "(x OR eOk) AND eOk \<noteq> 0" "(x OR y OR eOk) AND eOk \<noteq> 0" for x y :: status
    by (simp_all add: status_tests status_bits) (simp_all add: status_defs)
  have min0: "\<forall>s q. Cycle_parse 0 mx flag u p = Some (s, q) \<longrightarrow> s AND eOk \<noteq> 0"
    using char [of 0] ok by auto
  have tot: "(\<forall>k acc q. iterated u k acc p q \<longrightarrow> u q \<noteq> None)
        \<longrightarrow> Cycle_parse mn mx flag u p \<noteq> None"
    using char [of mn] by (metis option.distinct(1))
  have bits: "(((acc0 OR r0) AND NOT eOk) AND eOk = 0) \<and> ((acc0 OR r0) OR eOk) AND eOk \<noteq> 0
        \<and> (acc0 OR flag OR eOk) AND eOk \<noteq> 0
        \<and> ((((acc0 OR r0) AND NOT eOk) AND eOver \<noteq> 0) = (acc0 AND eOver \<noteq> 0 \<or> r0 AND eOver \<noteq> 0))
        \<and> ((((acc0 OR r0) OR eOk) AND eOver \<noteq> 0) = (acc0 AND eOver \<noteq> 0 \<or> r0 AND eOver \<noteq> 0))
        \<and> (((acc0 OR flag OR eOk) AND eOver \<noteq> 0) = (acc0 AND eOver \<noteq> 0 \<or> flag AND eOver \<noteq> 0))"
    by (simp add: status_tests status_bits) (simp add: status_defs)
  have fl: "(Cycle_flag tot limit AND eOver \<noteq> 0) = (limit \<le> tot)"
    by (simp add: Cycle_flag_def status_defs)
  have org: "\<forall>k acc q. iterated u k acc p q \<and> acc AND eOver \<noteq> 0
         \<longrightarrow> (\<exists>j acc' q1 r q2. j < k \<and> iterated u j acc' p q1 \<and> u q1 = Some (r, q2)
                \<and> r AND eOver \<noteq> 0)"
    using iterated_Over_origin by blast
  have ps: "parse (Suc n) g (Cycle mn mx flag b) p = Cycle_parse mn mx flag (parse n g b) p"
    by simp
  show ?thesis by (intro conjI) (fact char [of mn] min0 tot org fl ps | use bits in blast)+
qed


text \<open>The theorem for a repetition of 0 to 5 times \<open>"a"\<close> on \<open>"aab"\<close>.\<close>

lemma iterated_Token_stack:
  "iterated (Token_parse nm m) k acc p q \<Longrightarrow> cntxV p \<noteq> [] \<Longrightarrow> cntxV q \<noteq> []"
  by (induction rule: iterated.induct)
     (auto simp add: Token_parse_def Let_def split: if_splits)

theorem Cycle_parse_repetition_witness:
  "Cycle_parse 0 5 eNone (Token_parse ''a'' {97}) (at_start [97, 97, 98]) \<noteq> None
   \<and> observe (Cycle_parse 0 5 eNone (Token_parse ''a'' {97}) (at_start [97, 97, 98]))
       = Some (eOk, [0, 0, 0, 1, 1, 2], None)
   \<and> eOk AND eOk \<noteq> 0"
proof -
  let ?u = "Token_parse ''a'' {97} :: int parse_fn"
  let ?p = "at_start [97, 97, 98]"
  have ne: "cntxV ?p \<noteq> []" by (simp add: at_start_def)
  have h: "\<forall>k acc q. iterated ?u k acc ?p q \<longrightarrow> ?u q \<noteq> None"
    using iterated_Token_stack [OF _ ne] by (auto simp add: Token_parse_def Let_def)
  have e: "observe (Cycle_parse 0 5 eNone ?u ?p) = Some (eOk, [0, 0, 0, 1, 1, 2], None)"
    by code_simp
  note c = Cycle_parse_repetition [of 5 ?u ?p 0 eNone]
  have c2: "\<forall>s q. Cycle_parse 0 5 eNone ?u ?p = Some (s, q) \<longrightarrow> s AND eOk \<noteq> 0"
    by (rule c [THEN conjunct2, THEN conjunct1])
  have c3: "Cycle_parse 0 5 eNone ?u ?p \<noteq> None"
    using c [THEN conjunct2, THEN conjunct2, THEN conjunct1] h by (rule mp)
  have ok: "eOk AND eOk \<noteq> 0"
  proof -
    obtain q where "Cycle_parse 0 5 eNone ?u ?p = Some (eOk, q)"
      using e by (auto simp add: observe_def)
    then show ?thesis using c2 by blast
  qed
  show ?thesis by (intro conjI) (fact c3 e ok)+
qed

text \<open>
  Claim C4 as stated fails where it says that \<open>eOver\<close> is set exactly when all
  iterations completed and the limit was triggered: a repetition of at most 3
  with limit 1024 (no flag) around a repetition of at most 1 with limit 1 returns
  \<open>eOk | eOver\<close> on \<open>"ab"\<close>.
\<close>

theorem Over_from_body_counterexample:
  "observe (parse 3 (\<lambda>h. Null) (Cycle (Cycle_min 0) (Cycle_max 3) (Cycle_flag 3 1024)
        (Cycle (Cycle_min 0) (Cycle_max 1) (Cycle_flag 1 1) (Token ''a'' {97})))
      (at_start [97, 98]))
     = Some (eOk OR eOver, [0, 0, 0, 1], None)
   \<and> Cycle_flag 3 1024 = eNone \<and> (eOk OR eOver) AND eOver \<noteq> 0"
  by code_simp

section \<open>Cursors never pass the sentinel\<close>

lemma keeps_boundedD:
  "keeps_bounded f \<Longrightarrow> bounded p \<Longrightarrow> f p = Some (s, p') \<Longrightarrow> bounded p' \<and> input p' = input p"
  unfolding keeps_bounded_def by blast

lemma bounded_Token:
  assumes "0 \<notin> match"
  shows "keeps_bounded (Token_parse nm match)"
  unfolding keeps_bounded_def
proof (intro allI impI, elim conjE)
  fix p :: "'a parser" and s p'
  assume b: "bounded p" and t: "Token_parse nm match p = Some (s, p')"
  have ne: "cntxV p \<noteq> []" using t by (auto simp add: Token_parse_def split: if_splits)
  define cc where "cc = (if level p \<noteq> 0 then zero_parse p (input p) (last (cntxV p)) else last (cntxV p))"
  have l: "last (cntxV p) \<le> length (input p)" using b ne by (simp add: bounded_def)
  have cc: "cc \<le> length (input p)"
    using b l Base_zero_parse_le [of "last (cntxV p)" "input p"] by (auto simp add: cc_def bounded_def)
  have c1: "byte_at (input p) cc \<in> match \<Longrightarrow> cc + 1 \<le> length (input p)"
    using assms cc by (cases "cc < length (input p)") (auto simp add: byte_at_def)
  show "bounded p' \<and> input p' = input p"
    using t b ne cc c1 unfolding cc_def [symmetric]
    by (auto simp add: Token_parse_def Let_def cc_def [symmetric] bounded_def stub_call_def
        split: if_splits option.splits)
qed

lemma bounded_Action: "keeps_bounded (Action_parse f)"
  by (auto simp add: keeps_bounded_def Action_parse_def Let_def split: if_splits)

lemma bounded_Ctrl: "keeps_bounded (\<lambda>p. Some (flg, p))"
  by (simp add: keeps_bounded_def)

lemma set_erase_range: "erase_range a b xs = Some ys \<Longrightarrow> set ys \<subseteq> set xs"
  using set_take_subset [of a xs] set_drop_subset [of b xs]
  by (auto simp add: erase_range_def split: if_splits)

lemma erase_cntxV:
  assumes "erase low up p = Some p'"
  shows "set (cntxV p') \<subseteq> set (cntxV p) \<and> input p' = input p \<and> zero_parse p' = zero_parse p"
proof -
  obtain v where v: "erase_range low (if up \<noteq> 0 then up else length (cntxV p)) (cntxV p) = Some v"
    using assms by (auto simp add: erase_def split: option.splits)
  have "cntxV p' = v \<and> input p' = input p \<and> zero_parse p' = zero_parse p"
    using assms v by (auto simp add: erase_def split: option.splits if_splits)
  then show ?thesis using set_erase_range [OF v] by simp
qed

lemma bounded_erase: "bounded p \<Longrightarrow> erase low up p = Some p' \<Longrightarrow> bounded p' \<and> input p' = input p"
  using erase_cntxV [of low up p p'] by (auto simp add: bounded_def)

lemma set_resize: "set (resize n xs) \<subseteq> insert 0 (set xs)"
  using set_take_subset [of n xs] by (auto simp add: resize_def)

lemma bounded_resize: "bounded p \<Longrightarrow> bounded (p\<lparr>cntxV := resize n (cntxV p)\<rparr>)"
  using set_resize [of n "cntxV p"] by (auto simp add: bounded_def)

lemma bounded_And_loop:
  assumes "\<forall>u \<in> set us. keeps_bounded u"
  shows "bounded p \<Longrightarrow> And_loop sz us stat save p = Some (s, p')
         \<Longrightarrow> bounded p' \<and> input p' = input p"
  using assms
proof (induction us arbitrary: stat save p)
  case Nil
  then show ?case by simp
next
  case (Cons u us)
  obtain r p1 where u: "u p = Some (r, p1)"
    using Cons.prems(2) by (auto split: option.splits)
  have "keeps_bounded u" using Cons.prems(3) by simp
  from keeps_boundedD [of u p r p1, OF this Cons.prems(1) u]
  have b1: "bounded p1" "input p1 = input p" by simp_all
  show ?case
  proof (cases "(stat OR r) AND (eOk OR eError) = eOk")
    case True
    have "\<exists>st sv p2. bounded p2 \<and> input p2 = input p \<and> And_loop sz us st sv p2 = Some (s, p')"
    proof (cases "save = 0")
      case True
      then have "And_loop sz us ((stat OR r) AND NOT (eSkip OR eRet OR eOk))
            (if (stat OR r) AND eSkip \<noteq> 0 then length (cntxV p1) else 0) p1 = Some (s, p')"
        using Cons.prems(2) u \<open>(stat OR r) AND (eOk OR eError) = eOk\<close> by (simp add: Let_def)
      then show ?thesis using b1 by blast
    next
      case False
      let ?p2 = "p1\<lparr>cntxV := resize save (cntxV p1)\<rparr>"
      have "And_loop sz us ((stat OR r) AND NOT (eSkip OR eRet OR eOk))
            (if (stat OR r) AND eSkip \<noteq> 0 then length (cntxV ?p2) else 0) ?p2 = Some (s, p')"
        using False Cons.prems(2) u \<open>(stat OR r) AND (eOk OR eError) = eOk\<close> by (simp add: Let_def)
      moreover have "bounded ?p2" "input ?p2 = input p"
        using b1 bounded_resize [OF b1(1)] by simp_all
      ultimately show ?thesis by blast
    qed
    then obtain st sv p2 where "bounded p2" "input p2 = input p"
      "And_loop sz us st sv p2 = Some (s, p')" by blast
    from Cons.IH [OF this(1,3)] Cons.prems(3) this(2) show ?thesis by simp
  next
    case False
    obtain p3 where e: "erase sz 0 p1 = Some p3" and p': "p' = p3"
      using Cons.prems(2) u False by (auto simp add: Let_def split: option.splits if_splits)
    show ?thesis using bounded_erase [OF b1(1) e] b1(2) p' by simp
  qed
qed

lemma bounded_And:
  "\<forall>u \<in> set us. keeps_bounded u \<Longrightarrow> keeps_bounded (And_parse us)"
  unfolding keeps_bounded_def [of "And_parse us"] And_parse_def
  using bounded_And_loop by blast

lemma bounded_Or_loop:
  assumes "\<forall>u \<in> set us. keeps_bounded u" and "org \<le> length (input p)"
  shows "bounded p \<Longrightarrow> Or_loop org sz us stat mx tmp p = Some (st, m, t, p')
         \<Longrightarrow> bounded p' \<and> input p' = input p"
  using assms
proof (induction us arbitrary: stat mx tmp p)
  case Nil
  then show ?case by simp
next
  case (Cons u us)
  let ?p0 = "if length (cntxV p) > sz then p\<lparr>cntxV := cntxV p @ [org]\<rparr> else p"
  have b0: "bounded ?p0" "input ?p0 = input p"
    using Cons.prems(1,4) by (auto simp add: bounded_def)
  obtain r p1 where u: "u ?p0 = Some (r, p1)"
    using Cons.prems(2) by (auto simp add: Let_def split: option.splits)
  have "keeps_bounded u" using Cons.prems(3) by simp
  from keeps_boundedD [of u ?p0 r p1, OF this b0(1) u] b0(2)
  have b1: "bounded p1" "input p1 = input p" by simp_all
  have er: "erase low up p1 = Some q \<Longrightarrow> bounded q \<and> input q = input p" for low up q
    using bounded_erase [OF b1(1)] b1(2) by simp
  have "\<exists>p2. bounded p2 \<and> input p2 = input p
          \<and> (p' = p2 \<or> (\<exists>stat' mx' tmp'. Or_loop org sz us stat' mx' tmp' p2 = Some (st, m, t, p')))"
    using Cons.prems(2) u b1 er
    by (simp add: Let_def split: option.splits if_splits) blast+
  then obtain p2 where p2: "bounded p2" "input p2 = input p"
    "p' = p2 \<or> (\<exists>stat' mx' tmp'. Or_loop org sz us stat' mx' tmp' p2 = Some (st, m, t, p'))"
    by blast
  from p2(3) show ?case
  proof
    assume "p' = p2"
    then show ?thesis using p2 by simp
  next
    assume "\<exists>stat' mx' tmp'. Or_loop org sz us stat' mx' tmp' p2 = Some (st, m, t, p')"
    then obtain stat' mx' tmp' where "Or_loop org sz us stat' mx' tmp' p2 = Some (st, m, t, p')"
      by blast
    from Cons.IH [OF p2(1) this] Cons.prems(3,4) p2(2) show ?thesis by simp
  qed
qed

lemma bounded_Or:
  assumes "\<forall>u \<in> set us. keeps_bounded u"
  shows "keeps_bounded (Or_parse us)"
  unfolding keeps_bounded_def
proof (intro allI impI, elim conjE)
  fix p :: "'a parser" and s p'
  assume b: "bounded p" and o: "Or_parse us p = Some (s, p')"
  have ne: "cntxV p \<noteq> []" using o by (auto simp add: Or_parse_def split: if_splits)
  then have l: "last (cntxV p) \<le> length (input p)" using b by (simp add: bounded_def)
  obtain st m t where "Or_loop (last (cntxV p)) (length (cntxV p)) us 0 0 (- 1) p = Some (st, m, t, p')"
    using o ne by (auto simp add: Or_parse_def split: option.splits)
  from bounded_Or_loop [OF assms l b this] show "bounded p' \<and> input p' = input p" .
qed

lemma bounded_Cycle_loop:
  assumes "keeps_bounded u"
  shows "bounded p \<Longrightarrow> Cycle_loop mn mx flag u i stat p = Some (s, p')
         \<Longrightarrow> bounded p' \<and> input p' = input p"
  using assms
proof (induction mn mx flag u i stat p rule: Cycle_loop.induct)
  case (1 mn mx flag u i stat p)
  show ?case
  proof (cases "i < mx")
    case False
    then show ?thesis using 1(2,3) by (subst (asm) Cycle_loop.simps) simp
  next
    case True
    obtain r p1 where u: "u p = Some (r, p1)"
      using 1(3) True by (subst (asm) Cycle_loop.simps) (auto split: option.splits)
    from keeps_boundedD [OF 1(4) 1(2) u] have b1: "bounded p1" "input p1 = input p" by simp_all
    show ?thesis
    proof (cases "(stat OR r) AND (eOk OR eError) = eOk")
      case ok: True
      have "Cycle_loop mn mx flag u (i + 1)
              ((stat OR r) AND NOT (e1st OR eTry OR eSkip OR eRet OR eOk)) p1 = Some (s, p')"
        using 1(3) True u ok by (subst (asm) Cycle_loop.simps) simp
      from 1(1) [OF True u refl ok b1(1) this 1(4)] b1(2) show ?thesis by simp
    next
      case False
      then have "p' = p1" using 1(3) True u by (subst (asm) Cycle_loop.simps) (simp split: if_splits)
      then show ?thesis using b1 by simp
    qed
  qed
qed

lemma bounded_Cycle: "keeps_bounded u \<Longrightarrow> keeps_bounded (Cycle_parse mn mx flag u)"
  unfolding keeps_bounded_def [of "Cycle_parse mn mx flag u"] Cycle_parse_def
  using bounded_Cycle_loop by blast

lemma stub_call_fields [simp]:
  "cntxV (stub_call b e nm p) = cntxV p" "input (stub_call b e nm p) = input p"
  "zero_parse (stub_call b e nm p) = zero_parse p" "level (stub_call b e nm p) = level p"
  "Catch (stub_call b e nm p) = Catch p"
  by (simp_all add: stub_call_def split: option.splits)

lemma pre_call_fields [simp]:
  "cntxV (snd (pre_call cb p)) = cntxV p" "input (snd (pre_call cb p)) = input p"
  "zero_parse (snd (pre_call cb p)) = zero_parse p" "level (snd (pre_call cb p)) = level p"
  "Catch (snd (pre_call cb p)) = Catch p"
  by (simp_all add: pre_call_def)

lemma post_call_fields [simp]:
  "cntxV (post_call up p) = cntxV p" "input (post_call up p) = input p"
  "zero_parse (post_call up p) = zero_parse p" "level (post_call up p) = level p"
  "Catch (post_call up p) = Catch p"
  by (simp_all add: post_call_def)

lemma bounded_cong:
  "cntxV q = cntxV p \<Longrightarrow> input q = input p \<Longrightarrow> zero_parse q = zero_parse p
   \<Longrightarrow> bounded q = bounded p"
  by (simp add: bounded_def)

lemma bounded_collapse:
  assumes "bounded p" and "cntxV q = resize n ((cntxV p)[k := last (cntxV p)])"
    and "cntxV p \<noteq> []" and "input q = input p" and "zero_parse q = zero_parse p"
  shows "bounded q"
proof -
  have "set ((cntxV p)[k := last (cntxV p)]) \<subseteq> insert (last (cntxV p)) (set (cntxV p))"
    by (rule set_update_subset_insert)
  then have "set ((cntxV p)[k := last (cntxV p)]) \<subseteq> set (cntxV p)"
    using assms(3) by auto
  then have "set (cntxV q) \<subseteq> insert 0 (set (cntxV p))"
    using set_resize [of n "(cntxV p)[k := last (cntxV p)]"] assms(2) by auto
  then show ?thesis using assms(1,4,5) by (auto simp add: bounded_def)
qed

lemma bounded_truncate:
  assumes "bounded p" and "cntxV q = resize n (cntxV p)"
    and "input q = input p" and "zero_parse q = zero_parse p"
  shows "bounded q"
  using assms set_resize [of n "cntxV p"] by (auto simp add: bounded_def)

lemma bounded_Lexem:
  assumes "\<And>a body. use = Some (a, body) \<Longrightarrow> keeps_bounded body"
  shows "keeps_bounded (Lexem_parse nm use)"
  unfolding keeps_bounded_def
proof (intro allI impI, elim conjE)
  fix p :: "'a parser" and s p'
  assume b: "bounded p" and l: "Lexem_parse nm use p = Some (s, p')"
  show "bounded p' \<and> input p' = input p"
  proof (cases use)
    case None
    then show ?thesis using b l by (simp add: Lexem_parse_def)
  next
    case (Some ab)
    obtain a body where ab: "ab = (a, body)" by (cases ab)
    have kb: "keeps_bounded body" using assms Some ab by simp
    show ?thesis
    proof (cases "level p = 0 \<or> a")
      case True
      then have "body p = Some (s, p')" using l Some ab by (auto simp add: Lexem_parse_def)
      from keeps_boundedD [OF kb b this] show ?thesis .
    next
      case False
      have ne: "cntxV p \<noteq> []" using l Some ab False by (auto simp add: Lexem_parse_def split: if_splits)
      let ?org = "zero_parse p (input p) (last (cntxV p))"
      let ?p0 = "p\<lparr>cntxV := cntxV p @ [?org], level := level p - 1\<rparr>"
      have "last (cntxV p) \<le> length (input p)" using b ne by (simp add: bounded_def)
      then have "?org \<le> length (input p)"
        using b Base_zero_parse_le by (simp add: bounded_def)
      then have b0: "bounded ?p0" using b by (auto simp add: bounded_def)
      obtain stat p1 where body: "body ?p0 = Some (stat, p1)"
        using l Some ab False ne by (auto simp add: Lexem_parse_def Let_def split: option.splits)
      from keeps_boundedD [OF kb b0 body] have b1: "bounded p1" "input p1 = input p" by simp_all
      show ?thesis
      proof (cases "stat AND eOk \<noteq> 0 \<and> usub64 (length (cntxV p1)) (length (cntxV p)) > 1")
        case True
        then have big: "\<not> length (cntxV p1) \<le> length (cntxV p) + 1"
          and p': "p' = (stub_call ?org (last (cntxV p1)) nm (p1\<lparr>level := level p1 + 1\<rparr>))
                     \<lparr>cntxV := resize (length (cntxV p) + 2)
                         ((cntxV p1)[length (cntxV p) + 1 := last (cntxV p1)])\<rparr>"
          using l Some ab False ne body
          by (auto simp add: Lexem_parse_def Let_def split: if_splits)
        have "cntxV p1 \<noteq> []" using big by auto
        from bounded_collapse [OF b1(1) _ this, of p'] show ?thesis
          using b1(2) by (simp add: p')
      next
        case no: False
        then have p': "p' = p1\<lparr>level := level p1 + 1, cntxV := resize (length (cntxV p)) (cntxV p1)\<rparr>"
          using l Some ab False ne body
          by (auto simp add: Lexem_parse_def Let_def split: if_splits)
        from bounded_truncate [OF b1(1), of p'] show ?thesis
          using b1(2) by (simp add: p')
      qed
    qed
  qed
qed

lemma bounded_Rule:
  assumes "\<And>a body. use = Some (a, body) \<Longrightarrow> keeps_bounded body"
  shows "keeps_bounded (Rule_parse nm cb use)"
  unfolding keeps_bounded_def
proof (intro allI impI, elim conjE)
  fix p :: "'a parser" and s p'
  assume b: "bounded p" and l: "Rule_parse nm cb use p = Some (s, p')"
  show "bounded p' \<and> input p' = input p"
  proof (cases use)
    case None
    then show ?thesis using b l by (simp add: Rule_parse_def)
  next
    case (Some ab)
    obtain a body where ab: "ab = (a, body)" by (cases ab)
    have kb: "keeps_bounded body" using assms Some ab by simp
    show ?thesis
    proof (cases "level p = 0")
      case True
      then show ?thesis using b l Some ab by (simp add: Rule_parse_def)
    next
      case lev: False
      show ?thesis
      proof (cases a)
        case True
        then have "body p = Some (s, p')" using l Some ab lev by (auto simp add: Rule_parse_def)
        from keeps_boundedD [OF kb b this] show ?thesis .
      next
        case False
        let ?p0 = "snd (pre_call cb p)"
        have b0: "bounded ?p0" using b bounded_cong [of ?p0 p] by simp
        obtain stat p1 where body: "body ?p0 = Some (stat, p1)"
          using l Some ab False lev by (auto simp add: Rule_parse_def Let_def split: option.splits)
        from keeps_boundedD [OF kb b0 body] have b1: "bounded p1" "input p1 = input p" by simp_all
        show ?thesis
        proof (cases "stat AND eOk \<noteq> 0 \<and> usub64 (length (cntxV p1)) (length (cntxV p)) > 1")
          case True
          then obtain up where big: "\<not> length (cntxV p1) \<le> length (cntxV p) + 1"
            and p': "p' = post_call up (p1\<lparr>cntxV := resize (length (cntxV p) + 2)
                         ((cntxV p1)[length (cntxV p) + 1 := last (cntxV p1)])\<rparr>)"
            using l Some ab False lev body
            by (auto simp add: Rule_parse_def Let_def split: if_splits option.splits)
          have "cntxV p1 \<noteq> []" using big by auto
          from bounded_collapse [OF b1(1) _ this, of p'] show ?thesis
            using b1(2) by (simp add: p')
        next
          case no: False
          then have p': "p' = post_call (fst (pre_call cb p))
                 (p1\<lparr>cntxV := resize (length (cntxV p)) (cntxV p1)\<rparr>)"
            using l Some ab False lev body
            by (auto simp add: Rule_parse_def Let_def split: if_splits)
          from bounded_truncate [OF b1(1), of p'] show ?thesis
            using b1(2) by (simp add: p')
        qed
      qed
    qed
  qed
qed

lemma bounded_parse:
  assumes g: "\<forall>h. no_nul (g h)"
  shows "no_nul nd \<Longrightarrow> keeps_bounded (parse n g nd)"
proof (induction n arbitrary: nd)
  case 0
  then show ?case by (simp add: keeps_bounded_def)
next
  case (Suc n)
  have sub: "parse (Suc n) g nd =
     (case nd of
        Ctrl flg \<Rightarrow> (\<lambda>p. Some (flg, p))
      | Token nm match \<Rightarrow> Token_parse nm match
      | Action f \<Rightarrow> Action_parse f
      | And use \<Rightarrow> And_parse (map (parse n g) use)
      | Or use \<Rightarrow> Or_parse (map (parse n g) use)
      | Cycle mn mx flag u \<Rightarrow> Cycle_parse mn mx flag (parse n g u)
      | Lexem nm use \<Rightarrow>
          Lexem_parse nm (map_option (\<lambda>h. (is_Action (g h), parse n g (g h))) use)
      | Rule nm use callback \<Rightarrow>
          Rule_parse nm callback (map_option (\<lambda>h. (is_Action (g h), parse n g (g h))) use))"
    by (rule ext) (simp split: node.splits)
  show ?case
  proof (cases nd)
    case (Ctrl flg)
    then show ?thesis unfolding sub by (simp add: bounded_Ctrl)
  next
    case (Token nm match)
    then show ?thesis unfolding sub using Suc.prems by (simp add: bounded_Token)
  next
    case (Action f)
    then show ?thesis unfolding sub by (simp add: bounded_Action)
  next
    case (And use)
    then have "\<forall>u \<in> set (map (parse n g) use). keeps_bounded u"
      using Suc.prems Suc.IH by auto
    then show ?thesis unfolding sub And by (simp add: bounded_And)
  next
    case (Or use)
    then have "\<forall>u \<in> set (map (parse n g) use). keeps_bounded u"
      using Suc.prems Suc.IH by auto
    then show ?thesis unfolding sub Or by (simp add: bounded_Or)
  next
    case (Cycle mn mx flag u)
    then have "keeps_bounded (parse n g u)" using Suc.prems Suc.IH by simp
    then show ?thesis unfolding sub Cycle by (simp add: bounded_Cycle)
  next
    case (Lexem nm use)
    show ?thesis unfolding sub Lexem
      by (simp, rule bounded_Lexem) (use g Suc.IH in auto)
  next
    case (Rule nm use cb)
    show ?thesis unfolding sub Rule
      by (simp, rule bounded_Rule) (use g Suc.IH in auto)
  qed
qed


text \<open>
  Claim C10.  A terminal whose class does not contain the byte 0, evaluated when
  the cursor (after skipping, at a level other than 0) is at a zero byte, returns
  0 and leaves the whole context, cursor stack and semantic vector included, as it
  is.  The default skipper does not pass the sentinel.  Hence, for a grammar all
  of whose terminals have classes without the byte 0, with the default skipper:
  if no cursor on the stack lies behind the sentinel before a node is evaluated,
  none does after it, and after \<^verbatim>\<open>_analyze\<close> every cursor is at most the length of the
  text.
\<close>

theorem terminal_stops_at_sentinel:
  "(0 \<notin> match \<and> cntxV p \<noteq> []
      \<and> byte_at (input p) (if level p \<noteq> 0 then zero_parse p (input p) (last (cntxV p))
                              else last (cntxV p)) = 0
      \<longrightarrow> Token_parse nm match p = Some (0, p))
   \<and> (ptr \<le> length t \<longrightarrow> Base_zero_parse t ptr \<le> length t)
   \<and> (no_nul root \<and> (\<forall>h. no_nul (g h)) \<and> zero_parse p = Base_zero_parse
      \<and> (\<forall>c \<in> set (cntxV p). c \<le> length (input p)) \<and> parse n g root p = Some (s, p')
      \<longrightarrow> input p' = input p \<and> (\<forall>c \<in> set (cntxV p'). c \<le> length (input p)))
   \<and> (no_nul root \<and> (\<forall>h. no_nul (g h)) \<and> analyze n g root t Base_new = Some (s, p')
      \<longrightarrow> input p' = t \<and> (\<forall>c \<in> set (cntxV p'). c \<le> length t))"
proof -
  have tok: "0 \<notin> match \<and> cntxV p \<noteq> []
      \<and> byte_at (input p) (if level p \<noteq> 0 then zero_parse p (input p) (last (cntxV p))
                              else last (cntxV p)) = 0
      \<longrightarrow> Token_parse nm match p = Some (0, p)"
    by (auto simp add: Token_parse_def Let_def)
  have inv: "no_nul root \<and> (\<forall>h. no_nul (g h)) \<and> bounded q \<and> parse n g root q = Some (s, p')
      \<longrightarrow> input p' = input q \<and> bounded p'" for q
    using bounded_parse [of g root n] keeps_boundedD by blast
  have a: "no_nul root \<and> (\<forall>h. no_nul (g h)) \<and> zero_parse p = Base_zero_parse
      \<and> (\<forall>c \<in> set (cntxV p). c \<le> length (input p)) \<and> parse n g root p = Some (s, p')
      \<longrightarrow> input p' = input p \<and> (\<forall>c \<in> set (cntxV p'). c \<le> length (input p))"
    using inv [of p] by (auto simp add: bounded_def)
  have b0: "bounded ((Base_new :: 'a parser)\<lparr>input := t, cntxV := cntxV (Base_new :: 'a parser) @ [0, 0]\<rparr>)"
    by (simp add: bounded_def Base_new_def)
  have b: "no_nul root \<and> (\<forall>h. no_nul (g h)) \<and> analyze n g root t Base_new = Some (s, p')
      \<longrightarrow> input p' = t \<and> (\<forall>c \<in> set (cntxV p'). c \<le> length t)"
    using inv [of "Base_new\<lparr>input := t, cntxV := cntxV (Base_new :: 'a parser) @ [0, 0]\<rparr>"] b0
    by (auto simp add: bounded_def analyze_def)
  show ?thesis using tok a b Base_zero_parse_le [of ptr t] by blast
qed


text \<open>The theorem for a repetition of \<open>"a"\<close> on \<open>"aa"\<close>, and for \<open>"a"\<close> at the sentinel.\<close>

theorem terminal_stops_at_sentinel_witness:
  "Token_parse ''a'' {97} (at_start [97, 97]\<lparr>cntxV := [0, 0, 0, 1, 1, 2]\<rparr>)
     = Some (0, at_start [97, 97]\<lparr>cntxV := [0, 0, 0, 1, 1, 2]\<rparr>)
   \<and> (\<exists>p'. analyze 2 (\<lambda>h. Null) (Cycle 0 5 eNone (Token ''a'' {97})) [97, 97]
               (Base_new :: int parser) = Some (eOk OR eEof, p')
           \<and> cntxV p' = [0, 0, 0, 1, 1, 2] \<and> Max (set (cntxV p')) \<le> length [97 :: byte, 97])"
proof -
  let ?p = "at_start [97, 97]\<lparr>cntxV := [0, 0, 0, 1, 1, 2]\<rparr>"
  let ?g = "\<lambda>h :: nat. Null :: int node"
  let ?root = "Cycle 0 5 eNone (Token ''a'' {97}) :: int node"
  have h: "0 \<notin> {97 :: byte}" "cntxV ?p \<noteq> []"
    "byte_at (input ?p) (if level ?p \<noteq> 0 then zero_parse ?p (input ?p) (last (cntxV ?p))
                          else last (cntxV ?p)) = 0"
    by (simp_all add: at_start_def Base_new_def Base_zero_parse.simps byte_at_def)
  note t = terminal_stops_at_sentinel [of "{97}" ?p "''a''" 0 "[]" ?root ?g 2 "eOk OR eEof"]
  have c1: "Token_parse ''a'' {97} ?p = Some (0, ?p)"
    using t [THEN conjunct1] h by blast
  have "observe (analyze 2 ?g ?root [97, 97] (Base_new :: int parser))
        = Some (eOk OR eEof, [0, 0, 0, 1, 1, 2], None)"
    by code_simp
  then obtain p' where p': "analyze 2 ?g ?root [97, 97] (Base_new :: int parser) = Some (eOk OR eEof, p')"
    "cntxV p' = [0, 0, 0, 1, 1, 2]"
    by (auto simp add: observe_def)
  have n: "no_nul ?root" "\<forall>h. no_nul (?g h)" by (simp_all add: Null_def)
  note t2 = terminal_stops_at_sentinel [of "{97}" ?p "''a''" 0 "[97, 97]" ?root ?g 2 "eOk OR eEof" p']
  have "\<forall>c \<in> set (cntxV p'). c \<le> length [97 :: byte, 97]"
    using t2 [THEN conjunct2, THEN conjunct2, THEN conjunct2] n p'(1) by blast
  then have "Max (set (cntxV p')) \<le> length [97 :: byte, 97]"
    using p'(2) by simp
  then show ?thesis using c1 p' by blast
qed

section \<open>Alternation: what every node keeps\<close>


lemma like_cntxV [simp]: "like p (q\<lparr>cntxV := v\<rparr>) = like p q"
  by (simp add: like_def)








text \<open>
  With a skipper that does not move backwards, the \<^verbatim>\<open>_parse\<close> method of every node,
  to any depth of the interpreter, keeps the text, the skipper, the level and the
  class of the context, only pushes on the cursor stack (a sequence that fails
  and an alternative that is rejected leave the cursor stack as it was at their
  entry) and does not move the cursor backwards.
\<close>

lemma hook_derived [simp]:
  "derived (stub_call b e nm p) = derived p" "derived (snd (pre_call cb p)) = derived p"
  "derived (post_call up p) = derived p"
  by (simp_all add: stub_call_def pre_call_def post_call_def split: option.splits)

lemma like_hooks [simp]:
  "like p (stub_call b e nm q) = like p q" "like p (snd (pre_call cb q)) = like p q"
  "like p (post_call up q) = like p q"
  by (simp_all add: like_def)


lemma like_sym: "like p q \<Longrightarrow> like q p"
  by (simp add: like_def)

lemma steady_like: "like p q \<Longrightarrow> steady p u \<Longrightarrow> steady q u"
  unfolding steady_def like_def by metis

lemma resize_take: "n \<le> length xs \<Longrightarrow> resize n xs = take n xs"
  by (simp add: resize_def)










lemma usub64_big: "b \<le> a \<Longrightarrow> 1 < usub64 a b \<Longrightarrow> b + 1 < a"
  by (cases "a \<le> b + 1") (auto simp add: usub64_def)








lemma pushing_like: "like p q \<Longrightarrow> pushing p u \<Longrightarrow> pushing q u"
  unfolding pushing_def like_def by metis













section \<open>Alternation: the choice\<close>

text \<open>
  The loop of \<^verbatim>\<open>_Or::_parse\<close>, for children that only push.  \<open>seen\<close> are the outcomes of
  the children already evaluated, \<open>w\<close> the pushes accepted among them; the loop
  evaluates the next child in a context started from \<open>p\<close>.  It returns when the
  children return and \<^verbatim>\<open>_erase\<close> is defined, which it is in a plain context.
\<close>

lemma narrow_0 [simp]: "narrow 0 = 0"
  by (simp add: narrow_def)


lemma advance_Nil [simp]: "advance org [] = 0"
  by (simp add: advance_def)


lemma joined_Nil [simp]: "joined acc [] = acc"
  by (simp add: joined_def)




lemma tested_snoc [simp]: "tested (seen @ [out]) = joined 0 seen OR fst out"
  by (simp add: tested_def)

lemma last_advance_Nil [simp]: "last_advance org [] = - 1"
  by (simp add: last_advance_def)



lemma stops_Nil [simp]: "\<not> stops org []"
  by (simp add: stops_def)











lemma chosen_matched:
  "chosen org outs m w \<Longrightarrow> m \<noteq> 0 \<Longrightarrow> \<exists>out \<in> set outs. fst out AND eOk \<noteq> 0"
  unfolding chosen_def by auto

















section \<open>Alternation: a match without advance\<close>
















end
